theory Spec2Isabelle
  imports Main
begin

section \<open>Data model\<close>

text \<open>
  The request types of \<^verbatim>\<open>interfaces/index.ts\<close>. Amounts, heights and indices are
  integers: a field of type \<^verbatim>\<open>number\<close> holds the integer value of a finite JavaScript
  number. The arithmetic the service does on amounts is that of JavaScript numbers and
  is modelled below. Field names that clash between interfaces (or with
  Isabelle keywords) carry a prefix: \<^verbatim>\<open>Output.address/value\<close> are \<open>out_address\<close> and
  \<open>out_value\<close>, \<^verbatim>\<open>Transaction.id\<close> is \<open>txn_id\<close>, \<^verbatim>\<open>Block.id/height\<close> are
  \<open>blk_id\<close> and \<open>blk_height\<close>.
\<close>

record Input =
  txId :: string
  index :: int

record Output =
  out_address :: string
  out_value :: int

record Transaction =
  txn_id :: string
  inputs :: "Input list"
  outputs :: "Output list"

record Block =
  blk_id :: string
  blk_height :: int
  transactions :: "Transaction list"

text \<open>
  The tables of \<^verbatim>\<open>database/schema.ts\<close>. A row of \<^verbatim>\<open>outputs\<close> has all eight columns
  (\<^verbatim>\<open>value\<close> is \<open>val\<close>); the nullable columns are options. A row of \<^verbatim>\<open>blocks\<close> is
  \<^verbatim>\<open>(id, height)\<close>; a row of \<^verbatim>\<open>balances\<close> is the pair \<^verbatim>\<open>(address, balance)\<close>.
  A table is the list of its rows in insertion order.
\<close>

record OutputRecord =
  tx_id :: string
  output_index :: int
  address :: string
  val :: int
  block_height :: int
  spent :: bool
  spent_by_tx :: "string option"
  spent_at_height :: "int option"

record BlockRecord =
  rec_id :: string
  height :: int

record DB =
  tbl_blocks :: "BlockRecord list"
  tbl_outputs :: "OutputRecord list"
  tbl_balances :: "(string \<times> int) list"

definition emptyDB :: DB where
  "emptyDB = \<lparr>tbl_blocks = [], tbl_outputs = [], tbl_balances = []\<rparr>"

text \<open>
  \<^verbatim>\<open>ValidationError\<close> is \<^verbatim>\<open>{error: string}\<close> in the source; the five message templates
  are the five constructors, in the order the source produces them. A statement the
  database refuses (a primary key, unique or foreign key constraint) makes the \<^verbatim>\<open>pg\<close>
  client throw; that is \<open>DbError\<close>.
\<close>

datatype ValidationError =
    InvalidHeight
  | InvalidBlockId
  | UnspentOutputNotFound
  | UnbalancedTransaction
  | TargetAboveCurrent

datatype DbError = UniqueViolation | ForeignKeyViolation

text \<open>The result of one step inside a database transaction.\<close>

datatype 'a step = Ok 'a | Fail ValidationError | Throw DbError

text \<open>
  What a service call gives its caller: \<^verbatim>\<open>null\<close> (\<open>Success\<close>), a \<^verbatim>\<open>ValidationError\<close>
  (\<open>Failure\<close>), or a thrown exception (\<open>Exception\<close>).
\<close>

datatype Reply = Success | Failure ValidationError | Exception DbError

section \<open>Identity function (\<^verbatim>\<open>utils/crypto.ts\<close>)\<close>

text \<open>
  The template literal \<^verbatim>\<open>`${height}`\<close> of an integer is its decimal string, with a
  leading minus sign below zero.
\<close>

fun decimalNat :: "nat \<Rightarrow> string" where
  "decimalNat n =
     (if n < 10 then [''0123456789'' ! n]
      else decimalNat (n div 10) @ [''0123456789'' ! (n mod 10)])"

declare decimalNat.simps [simp del]

definition decimal :: "int \<Rightarrow> string" where
  "decimal i = (if i < 0 then CHR ''-'' # decimalNat (nat (- i)) else decimalNat (nat i))"

text \<open>
  \<^verbatim>\<open>crypto.createHash('sha256').update(data).digest('hex')\<close> belongs to the Node
  runtime, not to the repository: it is the parameter \<open>H\<close> of everything that hashes.
\<close>

definition calculateBlockId :: "(string \<Rightarrow> string) \<Rightarrow> int \<Rightarrow> Transaction list \<Rightarrow> string" where
  "calculateBlockId H h txs =
     (let txIds = concat (map txn_id txs);
          data = decimal h @ txIds
      in H data)"

section \<open>JavaScript numbers\<close>

text \<open>
  The sums of \<^verbatim>\<open>processTransaction\<close> are JavaScript numbers, that is IEEE-754 doubles.
  The sum of two integer-valued doubles is an integer-valued double, an infinity or NaN,
  so these are the numbers that occur.
\<close>

datatype jsnumber = Num int | PosInfinity | NegInfinity | NaN

text \<open>
  Rounding a natural number to 53 significant bits, ties to the even neighbour:
  \<open>expo n\<close> is the number of low bits that do not fit, \<open>9007199254740992\<close> is \<open>2 ^ 53\<close>.
\<close>

fun expo :: "nat \<Rightarrow> nat" where
  "expo n = (if n < 9007199254740992 then 0 else Suc (expo (n div 2)))"

declare expo.simps [simp del]

definition roundMagnitude :: "nat \<Rightarrow> nat" where
  "roundMagnitude n =
     (let e = expo n; q = n div 2 ^ e; r = n mod 2 ^ e
      in if 2 * r > 2 ^ e \<or> (2 * r = 2 ^ e \<and> odd q) then (q + 1) * 2 ^ e else q * 2 ^ e)"

definition roundedValue :: "int \<Rightarrow> int" where
  "roundedValue x =
     (if x < 0 then - int (roundMagnitude (nat (- x))) else int (roundMagnitude (nat x)))"

text \<open>
  \<^verbatim>\<open>Number(x)\<close> of the decimal text of an integer \<open>x\<close>, and the result of an addition
  whose exact value is \<open>x\<close>: the nearest double, an infinity from \<open>2 ^ 1024\<close> on.
\<close>

definition toNumber :: "int \<Rightarrow> jsnumber" where
  "toNumber x =
     (if roundMagnitude (nat \<bar>x\<bar>) \<ge> 2 ^ 1024
      then (if x < 0 then NegInfinity else PosInfinity)
      else Num (roundedValue x))"

text \<open>The operator \<^verbatim>\<open>+\<close> on numbers.\<close>

fun jsAdd :: "jsnumber \<Rightarrow> jsnumber \<Rightarrow> jsnumber" where
  "jsAdd (Num a) (Num b) = toNumber (a + b)"
| "jsAdd NaN _ = NaN"
| "jsAdd _ NaN = NaN"
| "jsAdd PosInfinity NegInfinity = NaN"
| "jsAdd NegInfinity PosInfinity = NaN"
| "jsAdd PosInfinity _ = PosInfinity"
| "jsAdd _ PosInfinity = PosInfinity"
| "jsAdd NegInfinity _ = NegInfinity"
| "jsAdd _ NegInfinity = NegInfinity"

text \<open>The operator \<^verbatim>\<open>!==\<close> on numbers: NaN differs from every number, itself included.\<close>

definition strictNotEqual :: "jsnumber \<Rightarrow> jsnumber \<Rightarrow> bool" where
  "strictNotEqual a b \<longleftrightarrow> a = NaN \<or> b = NaN \<or> a \<noteq> b"

section \<open>Repositories\<close>

text \<open>
  The read methods of the repositories take no client: they run \<^verbatim>\<open>getPool().query\<close>,
  on another connection than the one that holds the open transaction, and so see the
  committed tables only (PostgreSQL never shows a session the uncommitted writes of
  another). The write methods take the \<^verbatim>\<open>client\<close> and act on the transaction's working
  copy. Every function below is applied to the table state it really touches: reads to
  the committed \<open>db\<close>, writes to the working copy \<open>w\<close>.
\<close>

fun maxHeight :: "int list \<Rightarrow> int option" where
  "maxHeight [] = None"
| "maxHeight (h # hs) = (case maxHeight hs of None \<Rightarrow> Some h | Some m \<Rightarrow> Some (max h m))"

definition getCurrentHeight :: "DB \<Rightarrow> int" where
  \<comment> \<open>\<^verbatim>\<open>SELECT MAX(height)\<close>, then \<^verbatim>\<open>rows[0].height || 0\<close>: NULL and 0 both read as 0.\<close>
  "getCurrentHeight db =
     (case maxHeight (map height (tbl_blocks db)) of
        None \<Rightarrow> 0
      | Some m \<Rightarrow> (if m = 0 then 0 else m))"

definition insertBlock :: "DB \<Rightarrow> string \<Rightarrow> int \<Rightarrow> DbError + DB" where
  \<comment> \<open>\<^verbatim>\<open>id TEXT PRIMARY KEY, height INTEGER UNIQUE NOT NULL\<close>\<close>
  "insertBlock w i h =
     (if \<exists>r \<in> set (tbl_blocks w). rec_id r = i \<or> height r = h then Inl UniqueViolation
      else Inr (w\<lparr>tbl_blocks := tbl_blocks w @ [\<lparr>rec_id = i, height = h\<rparr>]\<rparr>))"

definition deleteBlocksAboveHeight :: "DB \<Rightarrow> int \<Rightarrow> DB" where
  \<comment> \<open>\<^verbatim>\<open>DELETE FROM blocks WHERE height > $1\<close>; the foreign key of \<^verbatim>\<open>outputs\<close> is
      \<^verbatim>\<open>ON DELETE CASCADE\<close>, so the outputs of a deleted block go with it.\<close>
  "deleteBlocksAboveHeight w t =
     w\<lparr>tbl_blocks := filter (\<lambda>b. \<not> height b > t) (tbl_blocks w),
        tbl_outputs := filter (\<lambda>r. \<not> (\<exists>b \<in> set (tbl_blocks w). height b > t \<and> height b = block_height r))
                         (tbl_outputs w)\<rparr>"

definition getUnspentOutput :: "DB \<Rightarrow> string \<Rightarrow> int \<Rightarrow> OutputRecord option" where
  \<comment> \<open>\<^verbatim>\<open>WHERE tx_id = $1 AND output_index = $2 AND spent = false\<close>, then \<^verbatim>\<open>rows[0] || null\<close>\<close>
  "getUnspentOutput db t i =
     find (\<lambda>r. tx_id r = t \<and> output_index r = i \<and> spent r = False) (tbl_outputs db)"

definition insertOutput :: "DB \<Rightarrow> string \<Rightarrow> int \<Rightarrow> string \<Rightarrow> int \<Rightarrow> int \<Rightarrow> DbError + DB" where
  \<comment> \<open>\<^verbatim>\<open>PRIMARY KEY (tx_id, output_index)\<close>,
      \<^verbatim>\<open>FOREIGN KEY (block_height) REFERENCES blocks(height)\<close>\<close>
  "insertOutput w t i a v h =
     (if \<exists>r \<in> set (tbl_outputs w). tx_id r = t \<and> output_index r = i then Inl UniqueViolation
      else if \<not> (\<exists>b \<in> set (tbl_blocks w). height b = h) then Inl ForeignKeyViolation
      else Inr (w\<lparr>tbl_outputs := tbl_outputs w @
                  [\<lparr>tx_id = t, output_index = i, address = a, val = v, block_height = h,
                    spent = False, spent_by_tx = None, spent_at_height = None\<rparr>]\<rparr>))"

definition markOutputAsSpent :: "DB \<Rightarrow> string \<Rightarrow> int \<Rightarrow> string \<Rightarrow> int \<Rightarrow> DB" where
  \<comment> \<open>\<^verbatim>\<open>UPDATE outputs SET spent = true, spent_by_tx = $3, spent_at_height = $4
      WHERE tx_id = $1 AND output_index = $2\<close>\<close>
  "markOutputAsSpent w t i spentByTx spentAtHeight =
     w\<lparr>tbl_outputs :=
         map (\<lambda>r. if tx_id r = t \<and> output_index r = i
                  then r\<lparr>spent := True, spent_by_tx := Some spentByTx,
                         spent_at_height := Some spentAtHeight\<rparr>
                  else r)
             (tbl_outputs w)\<rparr>"

definition deleteOutputsAboveHeight :: "DB \<Rightarrow> int \<Rightarrow> DB" where
  \<comment> \<open>\<^verbatim>\<open>DELETE FROM outputs WHERE block_height > $1\<close>\<close>
  "deleteOutputsAboveHeight w t =
     w\<lparr>tbl_outputs := filter (\<lambda>r. \<not> block_height r > t) (tbl_outputs w)\<rparr>"

fun upsertBalance :: "(string \<times> int) list \<Rightarrow> string \<Rightarrow> int \<Rightarrow> (string \<times> int) list" where
  "upsertBalance [] a d = [(a, d)]"
| "upsertBalance ((k, b) # rest) a d =
     (if k = a then (k, b + d) # rest else (k, b) # upsertBalance rest a d)"

definition updateBalance :: "DB \<Rightarrow> string \<Rightarrow> int \<Rightarrow> DB" where
  \<comment> \<open>\<^verbatim>\<open>INSERT INTO balances VALUES ($1, $2) ON CONFLICT (address)
      DO UPDATE SET balance = balances.balance + $2\<close>\<close>
  "updateBalance w a delta = w\<lparr>tbl_balances := upsertBalance (tbl_balances w) a delta\<rparr>"

definition getBalance :: "DB \<Rightarrow> string \<Rightarrow> int" where
  \<comment> \<open>\<^verbatim>\<open>result.rows[0]?.balance || 0\<close>\<close>
  "getBalance db a = (case map_of (tbl_balances db) a of None \<Rightarrow> 0 | Some b \<Rightarrow> b)"

section \<open>Block service\<close>

text \<open>
  The input loop of \<^verbatim>\<open>processTransaction\<close>; \<open>s\<close> is \<^verbatim>\<open>inputSum\<close>. The stored amount
  comes back as decimal text and goes through \<^verbatim>\<open>Number\<close>, for the sum and for the debit.
  The debit sent to the database is the finite value \<open>roundedValue\<close>; \<^verbatim>\<open>Number\<close> is finite
  for every amount the service has stored from a finite JSON number.
\<close>

fun processInputs ::
  "DB \<Rightarrow> DB \<Rightarrow> string \<Rightarrow> int \<Rightarrow> Input list \<Rightarrow> jsnumber \<Rightarrow> (DB \<times> jsnumber) step" where
  "processInputs db w tid h [] s = Ok (w, s)"
| "processInputs db w tid h (inp # rest) s =
     (case getUnspentOutput db (txId inp) (index inp) of
        None \<Rightarrow> Fail UnspentOutputNotFound
      | Some output \<Rightarrow>
          processInputs db
            (updateBalance (markOutputAsSpent w (txId inp) (index inp) tid h)
               (address output) (- roundedValue (val output)))
            tid h rest (jsAdd s (toNumber (val output))))"

text \<open>The output loop; \<open>i\<close> is the loop index, \<open>s\<close> is \<^verbatim>\<open>outputSum\<close>.\<close>

fun processOutputs ::
  "DB \<Rightarrow> string \<Rightarrow> int \<Rightarrow> int \<Rightarrow> Output list \<Rightarrow> jsnumber \<Rightarrow> (DB \<times> jsnumber) step" where
  "processOutputs w tid h i [] s = Ok (w, s)"
| "processOutputs w tid h i (output # rest) s =
     (case insertOutput w tid i (out_address output) (out_value output) h of
        Inl e \<Rightarrow> Throw e
      | Inr w' \<Rightarrow>
          processOutputs (updateBalance w' (out_address output) (out_value output))
            tid h (i + 1) rest (jsAdd s (Num (out_value output))))"

definition processTransaction :: "DB \<Rightarrow> DB \<Rightarrow> Transaction \<Rightarrow> int \<Rightarrow> DB step" where
  "processTransaction db w tx blockHeight =
     (case processInputs db w (txn_id tx) blockHeight (inputs tx) (Num 0) of
        Fail e \<Rightarrow> Fail e
      | Throw e \<Rightarrow> Throw e
      | Ok (w1, inputSum) \<Rightarrow>
          (case processOutputs w1 (txn_id tx) blockHeight 0 (outputs tx) (Num 0) of
             Fail e \<Rightarrow> Fail e
           | Throw e \<Rightarrow> Throw e
           | Ok (w2, outputSum) \<Rightarrow>
               if length (inputs tx) > 0 \<and> strictNotEqual inputSum outputSum
               then Fail UnbalancedTransaction
               else Ok w2))"

text \<open>The loop over \<^verbatim>\<open>block.transactions\<close> in \<^verbatim>\<open>addBlock\<close>.\<close>

fun processTransactions :: "DB \<Rightarrow> DB \<Rightarrow> Transaction list \<Rightarrow> int \<Rightarrow> DB step" where
  "processTransactions db w [] h = Ok w"
| "processTransactions db w (tx # rest) h =
     (case processTransaction db w tx h of
        Ok w' \<Rightarrow> processTransactions db w' rest h
      | Fail e \<Rightarrow> Fail e
      | Throw e \<Rightarrow> Throw e)"

text \<open>
  \<^verbatim>\<open>addBlock\<close> returns its reply and the committed tables after the call. The two early
  returns leave after \<^verbatim>\<open>BEGIN\<close> and before any write, with neither \<^verbatim>\<open>COMMIT\<close> nor
  \<^verbatim>\<open>ROLLBACK\<close>: the transaction they leave open on the released client holds no
  change. A validation error of a transaction and a thrown exception both run
  \<^verbatim>\<open>ROLLBACK\<close>, which drops the working copy; \<^verbatim>\<open>COMMIT\<close> makes the working copy the
  committed state. Calls are taken one at a time: \<^verbatim>\<open>db\<close> is what a call finds committed
  and the second component of the result is what it leaves committed.
\<close>

definition addBlock :: "(string \<Rightarrow> string) \<Rightarrow> DB \<Rightarrow> Block \<Rightarrow> Reply \<times> DB" where
  "addBlock H db block =
     (let currentHeight = getCurrentHeight db in
      if blk_height block \<noteq> currentHeight + 1 then (Failure InvalidHeight, db)
      else
        let expectedId = calculateBlockId H (blk_height block) (transactions block) in
        if blk_id block \<noteq> expectedId then (Failure InvalidBlockId, db)
        else
          case insertBlock db (blk_id block) (blk_height block) of
            Inl e \<Rightarrow> (Exception e, db)
          | Inr w \<Rightarrow>
              (case processTransactions db w (transactions block) (blk_height block) of
                 Ok w' \<Rightarrow> (Success, w')
               | Fail e \<Rightarrow> (Failure e, db)
               | Throw e \<Rightarrow> (Exception e, db)))"

text \<open>The statements of \<^verbatim>\<open>rollback\<close>, in order.\<close>

definition unspendRow :: "int \<Rightarrow> OutputRecord \<Rightarrow> OutputRecord" where
  \<comment> \<open>\<^verbatim>\<open>SET spent = false, spent_by_tx = NULL, spent_at_height = NULL
      WHERE spent_at_height > $1\<close> on one row; a NULL \<^verbatim>\<open>spent_at_height\<close> does not match.\<close>
  "unspendRow t r =
     (case spent_at_height r of
        None \<Rightarrow> r
      | Some x \<Rightarrow> if x > t
                 then r\<lparr>spent := False, spent_by_tx := None, spent_at_height := None\<rparr>
                 else r)"

definition unspendAboveHeight :: "DB \<Rightarrow> int \<Rightarrow> DB" where
  \<comment> \<open>\<^verbatim>\<open>UPDATE outputs SET ... WHERE spent_at_height > $1\<close>\<close>
  "unspendAboveHeight w t = w\<lparr>tbl_outputs := map (unspendRow t) (tbl_outputs w)\<rparr>"

definition recalculateBalances :: "DB \<Rightarrow> int \<Rightarrow> DB" where
  \<comment> \<open>\<^verbatim>\<open>TRUNCATE balances\<close>, then \<^verbatim>\<open>INSERT INTO balances SELECT address, SUM(value)
      FROM outputs WHERE block_height <= $1 AND spent = false GROUP BY address\<close>\<close>
  "recalculateBalances w t =
     (let rows = filter (\<lambda>r. block_height r \<le> t \<and> spent r = False) (tbl_outputs w) in
      w\<lparr>tbl_balances :=
          map (\<lambda>a. (a, sum_list (map val (filter (\<lambda>r. address r = a) rows))))
              (remdups (map address rows))\<rparr>)"

definition rollback :: "DB \<Rightarrow> int \<Rightarrow> Reply \<times> DB" where
  "rollback db targetHeight =
     (let currentHeight = getCurrentHeight db in
      if targetHeight > currentHeight then (Failure TargetAboveCurrent, db)
      else
        let w1 = unspendAboveHeight db targetHeight;
            w2 = deleteOutputsAboveHeight w1 targetHeight;
            w3 = deleteBlocksAboveHeight w2 targetHeight;
            w4 = recalculateBalances w3 targetHeight
        in (Success, w4))"

section \<open>Derived notions used in the statements\<close>

text \<open>
  The value the variable \<^verbatim>\<open>inputSum\<close> of \<^verbatim>\<open>processTransaction\<close> holds after the input
  loop when every lookup succeeds (the loop reads the committed tables), the value
  \<^verbatim>\<open>outputSum\<close> holds after the output loop, and the condition under which the input
  loop runs to its end. Both sums are accumulated from \<open>0\<close> with the addition of
  JavaScript numbers, in the order of the lists.
\<close>

definition inputsFound :: "DB \<Rightarrow> Transaction \<Rightarrow> bool" where
  "inputsFound db tx = (\<forall>i \<in> set (inputs tx). getUnspentOutput db (txId i) (index i) \<noteq> None)"

fun inputSumFrom :: "DB \<Rightarrow> jsnumber \<Rightarrow> Input list \<Rightarrow> jsnumber" where
  "inputSumFrom db s [] = s"
| "inputSumFrom db s (i # rest) =
     inputSumFrom db
       (jsAdd s (case getUnspentOutput db (txId i) (index i) of
                   None \<Rightarrow> Num 0
                 | Some r \<Rightarrow> toNumber (val r)))
       rest"

definition inputSum :: "DB \<Rightarrow> Input list \<Rightarrow> jsnumber" where
  "inputSum db ins = inputSumFrom db (Num 0) ins"

fun outputSumFrom :: "jsnumber \<Rightarrow> Output list \<Rightarrow> jsnumber" where
  "outputSumFrom s [] = s"
| "outputSumFrom s (output # rest) = outputSumFrom (jsAdd s (Num (out_value output))) rest"

definition outputSum :: "Output list \<Rightarrow> jsnumber" where
  "outputSum outs = outputSumFrom (Num 0) outs"

text \<open>
  The exact sums: the sum of the values of the outputs the inputs reference, and the
  sum of the values of the outputs created. A list of amounts is safe when every amount
  and every partial sum, taken in the order of the list, is below \<open>2 ^ 53\<close> in absolute
  value: then every number the loop computes is an integer that a double holds exactly.
\<close>

definition inputValues :: "DB \<Rightarrow> Input list \<Rightarrow> int list" where
  "inputValues db ins =
     map (\<lambda>i. case getUnspentOutput db (txId i) (index i) of None \<Rightarrow> 0 | Some r \<Rightarrow> val r) ins"

definition exactInputSum :: "DB \<Rightarrow> Input list \<Rightarrow> int" where
  "exactInputSum db ins = sum_list (inputValues db ins)"

definition exactOutputSum :: "Output list \<Rightarrow> int" where
  "exactOutputSum outs = sum_list (map out_value outs)"

fun safeFrom :: "int \<Rightarrow> int list \<Rightarrow> bool" where
  "safeFrom s [] = True"
| "safeFrom s (v # vs) =
     (\<bar>v\<bar> < 9007199254740992 \<and> \<bar>s + v\<bar> < 9007199254740992 \<and> safeFrom (s + v) vs)"

definition safeAmounts :: "int list \<Rightarrow> bool" where
  "safeAmounts vs = safeFrom 0 vs"

text \<open>The primary keys present in the \<^verbatim>\<open>outputs\<close> table.\<close>

definition outKeys :: "DB \<Rightarrow> (string \<times> int) set" where
  "outKeys w = (\<lambda>r. (tx_id r, output_index r)) ` set (tbl_outputs w)"

text \<open>
  The working copy of the open transaction when the loop of \<^verbatim>\<open>addBlock\<close> reaches
  transaction number \<open>k\<close> (counted from 0) of the block: the block row is inserted and
  the transactions before \<open>k\<close> are processed.
\<close>

definition workingCopyAt :: "DB \<Rightarrow> Block \<Rightarrow> nat \<Rightarrow> DB step" where
  "workingCopyAt db block k =
     (case insertBlock db (blk_id block) (blk_height block) of
        Inl e \<Rightarrow> Throw e
      | Inr w \<Rightarrow> processTransactions db w (take k (transactions block)) (blk_height block))"

text \<open>
  The balance the specification gives an address: the sum of \<^verbatim>\<open>value\<close> over the
  outputs of the address with \<^verbatim>\<open>spent == false\<close> and
  \<^verbatim>\<open>createdAtHeight <= currentHeight\<close>.
\<close>

definition unspentSum :: "DB \<Rightarrow> string \<Rightarrow> int" where
  "unspentSum db a =
     sum_list (map val (filter (\<lambda>r. address r = a \<and> spent r = False \<and>
                                    block_height r \<le> getCurrentHeight db) (tbl_outputs db)))"

text \<open>
  The committed states the service can be in: the empty tables, and whatever a call of
  \<^verbatim>\<open>addBlock\<close> or \<^verbatim>\<open>rollback\<close> leaves behind, whether it succeeds or not.
\<close>

inductive reachable :: "(string \<Rightarrow> string) \<Rightarrow> DB \<Rightarrow> bool" for H :: "string \<Rightarrow> string" where
  initial: "reachable H emptyDB"
| added: "reachable H s \<Longrightarrow> reachable H (snd (addBlock H s b))"
| rolled: "reachable H s \<Longrightarrow> reachable H (snd (rollback s t))"

text \<open>
  The invariant of the reachable states: the block heights are \<open>1, ..., n\<close> in order,
  and no output is created or spent above the current height \<open>n\<close>.
\<close>

definition rowsBounded :: "int \<Rightarrow> DB \<Rightarrow> bool" where
  "rowsBounded m w \<longleftrightarrow>
     (\<forall>r \<in> set (tbl_outputs w). 1 \<le> block_height r \<and> block_height r \<le> m \<and>
        (\<forall>x. spent_at_height r = Some x \<longrightarrow> x \<le> m))"

definition chainInv :: "DB \<Rightarrow> bool" where
  "chainInv s \<longleftrightarrow>
     0 \<le> getCurrentHeight s \<and> map height (tbl_blocks s) = [1..getCurrentHeight s] \<and>
     rowsBounded (getCurrentHeight s) s"

section \<open>Chains in which no block names an output twice\<close>

text \<open>
  The notions for the chains whose blocks never list the same output twice among their
  inputs and carry representable amounts: the input keys of a block in processing
  order, the sum of the unspent outputs of an address whatever their height, the
  uniqueness of the primary key, the agreement of the stored balances with the ledger,
  and the states reached by such blocks.
\<close>

definition inputKeys :: "Transaction list \<Rightarrow> (string \<times> int) list" where
  "inputKeys txs = concat (map (\<lambda>tx. map (\<lambda>i. (txId i, index i)) (inputs tx)) txs)"

definition ledgerSum :: "DB \<Rightarrow> string \<Rightarrow> int" where
  "ledgerSum w a =
     sum_list (map val (filter (\<lambda>r. address r = a \<and> spent r = False) (tbl_outputs w)))"

definition keysDistinct :: "DB \<Rightarrow> bool" where
  "keysDistinct w \<longleftrightarrow> distinct (map (\<lambda>r. (tx_id r, output_index r)) (tbl_outputs w))"

definition balanced :: "DB \<Rightarrow> bool" where
  "balanced w \<longleftrightarrow> (\<forall>a. getBalance w a = ledgerSum w a)"

text \<open>
  An amount is representable when a JavaScript number holds it exactly, as every amount
  of a request does; then \<^verbatim>\<open>Number\<close> of its decimal text gives it back.
\<close>

definition representable :: "int \<Rightarrow> bool" where
  "representable v \<longleftrightarrow> roundedValue v = v"

definition representableAmounts :: "Transaction list \<Rightarrow> bool" where
  "representableAmounts txs \<longleftrightarrow>
     (\<forall>tx \<in> set txs. \<forall>output \<in> set (outputs tx). representable (out_value output))"

definition exactAmounts :: "DB \<Rightarrow> bool" where
  "exactAmounts w \<longleftrightarrow> (\<forall>r \<in> set (tbl_outputs w). representable (val r))"

definition regularBlock :: "Block \<Rightarrow> bool" where
  "regularBlock b \<longleftrightarrow>
     distinct (inputKeys (transactions b)) \<and> representableAmounts (transactions b)"

text \<open>
  The rows of the committed table that the rest of the block still has to spend are
  unchanged in the working copy.
\<close>

definition untouched :: "DB \<Rightarrow> DB \<Rightarrow> (string \<times> int) set \<Rightarrow> bool" where
  "untouched db w K \<longleftrightarrow>
     (\<forall>r \<in> set (tbl_outputs db).
        spent r = False \<and> (tx_id r, output_index r) \<in> K \<longrightarrow> r \<in> set (tbl_outputs w))"

text \<open>An unspent row has neither a spending transaction nor a spending height.\<close>

definition rowsWf :: "DB \<Rightarrow> bool" where
  "rowsWf w \<longleftrightarrow>
     (\<forall>r \<in> set (tbl_outputs w).
        spent r = False \<longrightarrow> spent_by_tx r = None \<and> spent_at_height r = None)"

text \<open>
  The outputs a rollback to height \<open>k\<close> leaves: spends above \<open>k\<close> are reset, rows
  created above \<open>k\<close> are dropped.
\<close>

definition below :: "int \<Rightarrow> DB \<Rightarrow> OutputRecord list" where
  "below k w = filter (\<lambda>r. \<not> block_height r > k) (map (unspendRow k) (tbl_outputs w))"

inductive reachableNoRepeat :: "(string \<Rightarrow> string) \<Rightarrow> DB \<Rightarrow> bool"
  for H :: "string \<Rightarrow> string" where
  initialNR: "reachableNoRepeat H emptyDB"
| addedNR: "reachableNoRepeat H s \<Longrightarrow> regularBlock b \<Longrightarrow>
            reachableNoRepeat H (snd (addBlock H s b))"
| rolledNR: "reachableNoRepeat H s \<Longrightarrow> reachableNoRepeat H (snd (rollback s t))"

text \<open>Submitting a list of blocks one after the other, all of them accepted.\<close>

fun acceptAll :: "(string \<Rightarrow> string) \<Rightarrow> DB \<Rightarrow> Block list \<Rightarrow> DB option" where
  "acceptAll H s [] = Some s"
| "acceptAll H s (b # bs) =
     (if fst (addBlock H s b) = Success then acceptAll H (snd (addBlock H s b)) bs else None)"

section \<open>Concrete chains\<close>

text \<open>
  The scenarios below need a concrete hash. \<open>testHash\<close> is an injective stand-in for
  SHA-256: the scenarios only need the submitted id to be the recomputed one and the ids
  of different blocks to differ. \<open>mkBlock\<close> gives a block the id the service expects, as
  the helper of the test suite does.
\<close>

definition testHash :: "string \<Rightarrow> string" where
  "testHash s = s"

definition mkBlock :: "(string \<Rightarrow> string) \<Rightarrow> int \<Rightarrow> Transaction list \<Rightarrow> Block" where
  "mkBlock H h txs = \<lparr>blk_id = calculateBlockId H h txs, blk_height = h, transactions = txs\<rparr>"

definition coinbaseTx :: Transaction where
  "coinbaseTx = \<lparr>txn_id = ''tx1'', inputs = [],
                 outputs = [\<lparr>out_address = ''addr1'', out_value = 100\<rparr>]\<rparr>"

definition spendTx :: Transaction where
  "spendTx = \<lparr>txn_id = ''tx2'', inputs = [\<lparr>txId = ''tx1'', index = 0\<rparr>],
              outputs = [\<lparr>out_address = ''addr2'', out_value = 60\<rparr>,
                         \<lparr>out_address = ''addr3'', out_value = 40\<rparr>]\<rparr>"

definition doubleSpendTx :: Transaction where
  "doubleSpendTx = \<lparr>txn_id = ''tx2'',
                    inputs = [\<lparr>txId = ''tx1'', index = 0\<rparr>, \<lparr>txId = ''tx1'', index = 0\<rparr>],
                    outputs = [\<lparr>out_address = ''addr2'', out_value = 200\<rparr>]\<rparr>"

definition chainedTx :: Transaction where
  "chainedTx = \<lparr>txn_id = ''tx2'', inputs = [\<lparr>txId = ''tx1'', index = 0\<rparr>],
                outputs = [\<lparr>out_address = ''addr2'', out_value = 100\<rparr>]\<rparr>"

definition unbalancedTx :: Transaction where
  "unbalancedTx = \<lparr>txn_id = ''tx3'', inputs = [\<lparr>txId = ''tx1'', index = 0\<rparr>],
                   outputs = [\<lparr>out_address = ''addr3'', out_value = 70\<rparr>]\<rparr>"

definition mintTx :: Transaction where
  "mintTx = \<lparr>txn_id = ''tx2'', inputs = [],
             outputs = [\<lparr>out_address = ''addr2'', out_value = 5\<rparr>]\<rparr>"

definition duplicateTx :: Transaction where
  "duplicateTx = \<lparr>txn_id = ''tx1'', inputs = [],
                  outputs = [\<lparr>out_address = ''addr9'', out_value = 1\<rparr>]\<rparr>"



definition afterGenesis :: DB where
  "afterGenesis = snd (addBlock testHash emptyDB (mkBlock testHash 1 [coinbaseTx]))"

definition afterSpend :: DB where
  "afterSpend = snd (addBlock testHash afterGenesis (mkBlock testHash 2 [spendTx]))"

definition afterDoubleSpend :: DB where
  "afterDoubleSpend = snd (addBlock testHash afterGenesis (mkBlock testHash 2 [doubleSpendTx]))"

definition afterThird :: DB where
  "afterThird = snd (addBlock testHash afterDoubleSpend (mkBlock testHash 3 []))"


section \<open>Lemmas about JavaScript numbers\<close>

lemma roundMagnitude_small: "n < 9007199254740992 \<Longrightarrow> roundMagnitude n = n"
  by (simp add: roundMagnitude_def expo.simps)

lemma roundedValue_small: "\<bar>x\<bar> < 9007199254740992 \<Longrightarrow> roundedValue x = x"
  by (simp add: roundedValue_def roundMagnitude_small)

lemma toNumber_small: "\<bar>x\<bar> < 9007199254740992 \<Longrightarrow> toNumber x = Num x"
proof -
  assume a: "\<bar>x\<bar> < 9007199254740992"
  then have "roundMagnitude (nat \<bar>x\<bar>) = nat \<bar>x\<bar>" by (simp add: roundMagnitude_small)
  moreover have "(9007199254740992::nat) \<le> 2 ^ 1024"
    using power_increasing [of 53 1024 "2::nat"] by simp
  ultimately have "\<not> roundMagnitude (nat \<bar>x\<bar>) \<ge> 2 ^ 1024" using a by linarith
  with a show ?thesis by (simp add: toNumber_def roundedValue_small)
qed

lemma strictNotEqual_Num [simp]: "strictNotEqual (Num a) (Num b) \<longleftrightarrow> a \<noteq> b"
  by (simp add: strictNotEqual_def)





section \<open>Lemmas about the transaction loops\<close>

lemma processTransactions_append:
  "processTransactions db w (pre @ rest) h =
     (case processTransactions db w pre h of
        Ok w' \<Rightarrow> processTransactions db w' rest h
      | Fail e \<Rightarrow> Fail e
      | Throw e \<Rightarrow> Throw e)"
  by (induction pre arbitrary: w) (auto split: step.splits)

lemma processInputs_cases:
  "(\<exists>w1. processInputs db w tid h ins s = Ok (w1, inputSumFrom db s ins) \<and>
         (\<forall>i \<in> set ins. getUnspentOutput db (txId i) (index i) \<noteq> None)) \<or>
   (processInputs db w tid h ins s = Fail UnspentOutputNotFound \<and>
         (\<exists>i \<in> set ins. getUnspentOutput db (txId i) (index i) = None))"
proof (induction ins arbitrary: w s)
  case Nil
  then show ?case by simp
next
  case (Cons inp rest)
  show ?case
  proof (cases "getUnspentOutput db (txId inp) (index inp)")
    case None
    then show ?thesis by simp
  next
    case (Some out)
    let ?w = "updateBalance (markOutputAsSpent w (txId inp) (index inp) tid h) (address out)
                (- roundedValue (val out))"
    from Cons.IH [of ?w "jsAdd s (toNumber (val out))"] Some show ?thesis
      by auto
  qed
qed

lemma processOutputs_cases:
  "(\<exists>w2. processOutputs w tid h i outs s = Ok (w2, outputSumFrom s outs)) \<or>
   (\<exists>e. processOutputs w tid h i outs s = Throw e)"
proof (induction outs arbitrary: w i s)
  case Nil
  then show ?case by simp
next
  case (Cons out rest)
  show ?case
  proof (cases "insertOutput w tid i (out_address out) (out_value out) h")
    case (Inl e)
    then show ?thesis by simp
  next
    case (Inr w')
    from Cons.IH [of "updateBalance w' (out_address out) (out_value out)" "i + 1"
        "jsAdd s (Num (out_value out))"] Inr
    show ?thesis by auto
  qed
qed

lemma processInputs_from_zero:
  "(\<exists>w1. processInputs db w tid h ins (Num 0) = Ok (w1, inputSum db ins) \<and>
         (\<forall>i \<in> set ins. getUnspentOutput db (txId i) (index i) \<noteq> None)) \<or>
   (processInputs db w tid h ins (Num 0) = Fail UnspentOutputNotFound \<and>
         (\<exists>i \<in> set ins. getUnspentOutput db (txId i) (index i) = None))"
  using processInputs_cases [of db w tid h ins "Num 0"] by (simp add: inputSum_def)

lemma processOutputs_from_zero:
  "(\<exists>w2. processOutputs w tid h i outs (Num 0) = Ok (w2, outputSum outs)) \<or>
   (\<exists>e. processOutputs w tid h i outs (Num 0) = Throw e)"
  using processOutputs_cases [of w tid h i outs "Num 0"] by (simp add: outputSum_def)

lemma processTransaction_Ok_balanced:
  assumes "processTransaction db w tx h = Ok w'"
  shows "inputsFound db tx \<and>
     (inputs tx \<noteq> [] \<longrightarrow> \<not> strictNotEqual (inputSum db (inputs tx)) (outputSum (outputs tx)))"
proof -
  from processInputs_from_zero [of db w "txn_id tx" h "inputs tx"]
  show ?thesis
  proof (elim disjE exE conjE)
    fix w1
    assume a: "processInputs db w (txn_id tx) h (inputs tx) (Num 0) = Ok (w1, inputSum db (inputs tx))"
      and f: "\<forall>i \<in> set (inputs tx). getUnspentOutput db (txId i) (index i) \<noteq> None"
    from processOutputs_from_zero [of w1 "txn_id tx" h 0 "outputs tx"]
    show ?thesis
      using a f assms by (auto simp: processTransaction_def inputsFound_def split: if_splits)
  next
    assume a: "processInputs db w (txn_id tx) h (inputs tx) (Num 0) = Fail UnspentOutputNotFound"
    then show ?thesis
      using assms by (auto simp: processTransaction_def)
  qed
qed


lemma updateBalance_blocks [simp]: "tbl_blocks (updateBalance w a d) = tbl_blocks w"
  by (simp add: updateBalance_def)

lemma updateBalance_outputs [simp]: "tbl_outputs (updateBalance w a d) = tbl_outputs w"
  by (simp add: updateBalance_def)

lemma markOutputAsSpent_blocks [simp]: "tbl_blocks (markOutputAsSpent w t i b h) = tbl_blocks w"
  by (simp add: markOutputAsSpent_def)

lemma markOutputAsSpent_keys [simp]: "outKeys (markOutputAsSpent w t i b h) = outKeys w"
proof -
  have "map (\<lambda>r. (tx_id r, output_index r)) (tbl_outputs (markOutputAsSpent w t i b h)) =
        map (\<lambda>r. (tx_id r, output_index r)) (tbl_outputs w)"
    by (simp add: markOutputAsSpent_def)
  then have "set (map (\<lambda>r. (tx_id r, output_index r)) (tbl_outputs (markOutputAsSpent w t i b h))) =
        set (map (\<lambda>r. (tx_id r, output_index r)) (tbl_outputs w))"
    by (rule arg_cong)
  then show ?thesis unfolding outKeys_def set_map .
qed

lemma updateBalance_keys [simp]: "outKeys (updateBalance w a d) = outKeys w"
  by (simp add: outKeys_def)

lemma insertOutput_Inr:
  "insertOutput w t i a v h = Inr w' \<Longrightarrow>
     tbl_blocks w' = tbl_blocks w \<and> outKeys w' = insert (t, i) (outKeys w) \<and>
     tbl_balances w' = tbl_balances w"
  by (auto simp: insertOutput_def outKeys_def split: if_splits)

lemma processInputs_Ok:
  "processInputs db w tid h ins s = Ok (w1, s1) \<Longrightarrow>
     tbl_blocks w1 = tbl_blocks w \<and> outKeys w1 = outKeys w"
  by (induction ins arbitrary: w s) (auto split: option.splits)

lemma processInputs_Fail:
  "processInputs db w tid h ins s = Fail e \<Longrightarrow> e = UnspentOutputNotFound"
  using processInputs_cases [of db w tid h ins s] by auto

lemma processOutputs_not_Fail: "processOutputs w tid h i outs s \<noteq> Fail e"
  using processOutputs_cases [of w tid h i outs s] by auto

lemma processOutputs_Ok:
  "processOutputs w tid h i outs s = Ok (w2, s2) \<Longrightarrow>
     tbl_blocks w2 = tbl_blocks w \<and> outKeys w \<subseteq> outKeys w2"
proof (induction outs arbitrary: w i s)
  case Nil
  then show ?case by simp
next
  case (Cons out rest)
  from Cons.prems obtain w' where
    i: "insertOutput w tid i (out_address out) (out_value out) h = Inr w'" and
    r: "processOutputs (updateBalance w' (out_address out) (out_value out)) tid h (i + 1) rest
          (jsAdd s (Num (out_value out))) = Ok (w2, s2)"
    by (auto split: sum.splits)
  from Cons.IH [OF r] insertOutput_Inr [OF i] show ?case by auto
qed

lemma processTransaction_Ok:
  "processTransaction db w tx h = Ok w' \<Longrightarrow>
     tbl_blocks w' = tbl_blocks w \<and> outKeys w \<subseteq> outKeys w'"
proof -
  assume a: "processTransaction db w tx h = Ok w'"
  then obtain w1 s1 s2 where
    i: "processInputs db w (txn_id tx) h (inputs tx) (Num 0) = Ok (w1, s1)" and
    o: "processOutputs w1 (txn_id tx) h 0 (outputs tx) (Num 0) = Ok (w', s2)"
    unfolding processTransaction_def
    by (auto split: step.splits if_splits)
  from processInputs_Ok [OF i] processOutputs_Ok [OF o] show ?thesis by simp
qed

lemma processTransactions_Ok:
  "processTransactions db w txs h = Ok w' \<Longrightarrow>
     tbl_blocks w' = tbl_blocks w \<and> outKeys w \<subseteq> outKeys w'"
proof (induction txs arbitrary: w)
  case Nil
  then show ?case by simp
next
  case (Cons a txs)
  from Cons.prems obtain w1 where a: "processTransaction db w a h = Ok w1"
    and r: "processTransactions db w1 txs h = Ok w'"
    by (auto split: step.splits)
  from processTransaction_Ok [OF a] Cons.IH [OF r] show ?case by auto
qed

lemma processOutputs_duplicate:
  "\<exists>b \<in> set (tbl_blocks w). height b = h \<Longrightarrow> j < length outs \<Longrightarrow>
     (tid, i + int j) \<in> outKeys w \<Longrightarrow>
     processOutputs w tid h i outs s = Throw UniqueViolation"
proof (induction outs arbitrary: w i s j)
  case Nil
  then show ?case by simp
next
  case (Cons out rest)
  show ?case
  proof (cases "(tid, i) \<in> outKeys w")
    case True
    then show ?thesis by (auto simp: insertOutput_def outKeys_def)
  next
    case False
    with Cons.prems(3) have "j \<noteq> 0" by (cases j) auto
    then obtain j' where j': "j = Suc j'" by (cases j) auto
    from False have nk: "\<not> (\<exists>r \<in> set (tbl_outputs w). tx_id r = tid \<and> output_index r = i)"
      by (auto simp: outKeys_def image_iff)
    from nk Cons.prems(1) have "\<exists>w'. insertOutput w tid i (out_address out) (out_value out) h = Inr w'"
      unfolding insertOutput_def by simp
    then obtain w' where
      i: "insertOutput w tid i (out_address out) (out_value out) h = Inr w'" ..
    let ?w = "updateBalance w' (out_address out) (out_value out)"
    from insertOutput_Inr [OF i] Cons.prems j'
    have "\<exists>b \<in> set (tbl_blocks ?w). height b = h" "j' < length rest"
      "(tid, (i + 1) + int j') \<in> outKeys ?w"
      by (auto simp: algebra_simps)
    from Cons.IH [OF this] i show ?thesis by simp
  qed
qed

lemma insertBlock_Inr:
  "insertBlock db i h = Inr w \<Longrightarrow>
     tbl_blocks w = tbl_blocks db @ [\<lparr>rec_id = i, height = h\<rparr>] \<and> tbl_outputs w = tbl_outputs db
     \<and> tbl_balances w = tbl_balances db"
  by (auto simp: insertBlock_def split: if_splits)

lemma processTransaction_duplicate:
  assumes fk: "\<exists>b \<in> set (tbl_blocks w). height b = h"
    and found: "inputsFound db tx"
    and j: "j < length (outputs tx)"
    and k: "(txn_id tx, int j) \<in> outKeys w"
  shows "processTransaction db w tx h = Throw UniqueViolation"
proof -
  from processInputs_from_zero [of db w "txn_id tx" h "inputs tx"] found
  obtain w1 where a: "processInputs db w (txn_id tx) h (inputs tx) (Num 0) = Ok (w1, inputSum db (inputs tx))"
    by (auto simp: inputsFound_def)
  from processInputs_Ok [OF a] fk k
  have "\<exists>b \<in> set (tbl_blocks w1). height b = h" "(txn_id tx, 0 + int j) \<in> outKeys w1"
    by auto
  from processOutputs_duplicate [OF this(1) j this(2)] a
  show ?thesis by (simp add: processTransaction_def)
qed



section \<open>Lemmas about the chain\<close>

lemma maxHeight_snoc:
  "maxHeight (hs @ [h]) = Some (case maxHeight hs of None \<Rightarrow> h | Some m \<Rightarrow> max m h)"
  by (induction hs) (auto split: option.splits)

lemma maxHeight_upto: "0 \<le> n \<Longrightarrow> maxHeight [1..n] = (if 1 \<le> n then Some n else None)"
proof (induction n rule: int_ge_induct)
  case base
  then show ?case by simp
next
  case (step i)
  have "[1..i + 1] = [1..i] @ [i + 1]"
    using step.hyps upto_rec2 [of 1 "i + 1"] by simp
  with step.IH step.hyps show ?case by (simp add: maxHeight_snoc)
qed

lemma currentHeight_upto:
  "0 \<le> n \<Longrightarrow> map height (tbl_blocks s) = [1..n] \<Longrightarrow> getCurrentHeight s = n"
  by (simp add: getCurrentHeight_def maxHeight_upto)

lemma filter_upto_above:
  assumes "t \<le> n"
  shows "filter (\<lambda>h. \<not> h > t) [1..n] = [1..t]"
proof (cases "1 \<le> t")
  case True
  with assms have "[1..n] = [1..t] @ [t + 1..n]"
    using upto_split2 [of 1 t n] by simp
  moreover have "filter (\<lambda>h. \<not> h > t) [1..t] = [1..t]"
    by (simp add: filter_id_conv)
  moreover have "filter (\<lambda>h. \<not> h > t) [t + 1..n] = []"
    by (simp add: filter_empty_conv)
  ultimately show ?thesis by simp
next
  case False
  then have "filter (\<lambda>h. \<not> h > t) [1..n] = []"
    by (auto simp: filter_empty_conv)
  with False show ?thesis by simp
qed

lemma rowsBounded_updateBalance [simp]: "rowsBounded m (updateBalance w a d) = rowsBounded m w"
  by (simp add: rowsBounded_def)

lemma rowsBounded_mark:
  "rowsBounded m w \<Longrightarrow> h \<le> m \<Longrightarrow> rowsBounded m (markOutputAsSpent w t i b h)"
  by (auto simp: rowsBounded_def markOutputAsSpent_def)

lemma rowsBounded_insert:
  "insertOutput w t i a v h = Inr w' \<Longrightarrow> rowsBounded m w \<Longrightarrow> 1 \<le> h \<Longrightarrow> h \<le> m \<Longrightarrow>
     rowsBounded m w'"
  by (auto simp: rowsBounded_def insertOutput_def split: if_splits)

lemma rowsBounded_processInputs:
  "processInputs db w tid h ins s = Ok (w1, s1) \<Longrightarrow> rowsBounded m w \<Longrightarrow> h \<le> m \<Longrightarrow>
     rowsBounded m w1"
  by (induction ins arbitrary: w s) (auto split: option.splits simp: rowsBounded_mark)

lemma rowsBounded_processOutputs:
  "processOutputs w tid h i outs s = Ok (w2, s2) \<Longrightarrow> rowsBounded m w \<Longrightarrow> 1 \<le> h \<Longrightarrow> h \<le> m \<Longrightarrow>
     rowsBounded m w2"
proof (induction outs arbitrary: w i s)
  case Nil
  then show ?case by simp
next
  case (Cons out rest)
  from Cons.prems(1) obtain w' where
    i: "insertOutput w tid i (out_address out) (out_value out) h = Inr w'" and
    r: "processOutputs (updateBalance w' (out_address out) (out_value out)) tid h (i + 1) rest
          (jsAdd s (Num (out_value out))) = Ok (w2, s2)"
    by (auto split: sum.splits)
  from rowsBounded_insert [OF i Cons.prems(2,3,4)]
  have "rowsBounded m (updateBalance w' (out_address out) (out_value out))" by simp
  from Cons.IH [OF r this Cons.prems(3,4)] show ?case .
qed

lemma rowsBounded_processTransaction:
  assumes "processTransaction db w tx h = Ok w'" "rowsBounded m w" "1 \<le> h" "h \<le> m"
  shows "rowsBounded m w'"
proof -
  from assms(1) obtain w1 s1 s2 where
    i: "processInputs db w (txn_id tx) h (inputs tx) (Num 0) = Ok (w1, s1)" and
    o: "processOutputs w1 (txn_id tx) h 0 (outputs tx) (Num 0) = Ok (w', s2)"
    unfolding processTransaction_def
    by (auto split: step.splits if_splits)
  from rowsBounded_processInputs [OF i assms(2,4)]
  show ?thesis by (rule rowsBounded_processOutputs [OF o _ assms(3,4)])
qed

lemma rowsBounded_processTransactions:
  "processTransactions db w txs h = Ok w' \<Longrightarrow> rowsBounded m w \<Longrightarrow> 1 \<le> h \<Longrightarrow> h \<le> m \<Longrightarrow>
     rowsBounded m w'"
proof (induction txs arbitrary: w)
  case Nil
  then show ?case by simp
next
  case (Cons a txs)
  from Cons.prems(1) obtain w1 where a: "processTransaction db w a h = Ok w1"
    and r: "processTransactions db w1 txs h = Ok w'"
    by (auto split: step.splits)
  from rowsBounded_processTransaction [OF a Cons.prems(2,3,4)]
  show ?case by (rule Cons.IH [OF r _ Cons.prems(3,4)])
qed

lemma addBlock_Success:
  assumes "fst (addBlock H db b) = Success"
  obtains w where
    "blk_height b = getCurrentHeight db + 1"
    "blk_id b = calculateBlockId H (blk_height b) (transactions b)"
    "insertBlock db (blk_id b) (blk_height b) = Inr w"
    "processTransactions db w (transactions b) (blk_height b) = Ok (snd (addBlock H db b))"
  using assms unfolding addBlock_def
  by (auto simp: Let_def split: if_splits sum.splits step.splits)

lemma addBlock_not_Success:
  "fst (addBlock H db b) \<noteq> Success \<Longrightarrow> snd (addBlock H db b) = db"
  unfolding addBlock_def
  by (auto simp: Let_def split: if_splits sum.splits step.splits)

lemma chainInv_addBlock:
  assumes inv: "chainInv s"
  shows "chainInv (snd (addBlock H s b))"
proof (cases "fst (addBlock H s b) = Success")
  case False
  with inv show ?thesis by (simp add: addBlock_not_Success)
next
  case True
  let ?n = "getCurrentHeight s"
  let ?s' = "snd (addBlock H s b)"
  from True obtain w where
    h: "blk_height b = ?n + 1" and
    ib: "insertBlock s (blk_id b) (blk_height b) = Inr w" and
    pt: "processTransactions s w (transactions b) (blk_height b) = Ok ?s'"
    by (rule addBlock_Success)
  from inv have n0: "0 \<le> ?n" and hs: "map height (tbl_blocks s) = [1..?n]"
    and rb: "rowsBounded ?n s"
    by (simp_all add: chainInv_def)
  from insertBlock_Inr [OF ib] processTransactions_Ok [OF pt]
  have "map height (tbl_blocks ?s') = [1..?n] @ [?n + 1]"
    using hs h by simp
  moreover from n0 have "[1..?n + 1] = [1..?n] @ [?n + 1]"
    using upto_rec2 [of 1 "?n + 1"] by simp
  ultimately have hs': "map height (tbl_blocks ?s') = [1..?n + 1]"
    by simp
  from n0 have ch: "getCurrentHeight ?s' = ?n + 1"
    by (intro currentHeight_upto [OF _ hs']) simp
  from rb insertBlock_Inr [OF ib] have "rowsBounded (?n + 1) w"
    by (auto simp: rowsBounded_def)
  with pt h n0 have "rowsBounded (?n + 1) ?s'"
    by (auto intro: rowsBounded_processTransactions)
  with hs' ch n0 show ?thesis by (simp add: chainInv_def)
qed


lemma rollback_rejected: "t > getCurrentHeight db \<Longrightarrow> rollback db t = (Failure TargetAboveCurrent, db)"
  by (simp add: rollback_def)

lemma cascade_noop:
  "filter (\<lambda>r. \<not> t < block_height r \<and>
             (\<forall>b \<in> set bs. t < height b \<longrightarrow> height b \<noteq> block_height r)) rs =
   filter (\<lambda>r. \<not> t < block_height r) rs"
  by (rule filter_cong) auto

lemma recalculateBalances_tables [simp]:
  "tbl_blocks (recalculateBalances w t) = tbl_blocks w"
  "tbl_outputs (recalculateBalances w t) = tbl_outputs w"
  by (simp_all add: recalculateBalances_def Let_def)

lemma rollback_accepted_state:
  assumes "t \<le> getCurrentHeight db"
  shows "rollback db t =
     (Success,
      recalculateBalances
        (db\<lparr>tbl_blocks := filter (\<lambda>b. \<not> height b > t) (tbl_blocks db),
            tbl_outputs := filter (\<lambda>r. \<not> block_height r > t) (map (unspendRow t) (tbl_outputs db))\<rparr>)
        t)"
  using assms
  by (simp add: rollback_def Let_def unspendAboveHeight_def deleteOutputsAboveHeight_def
      deleteBlocksAboveHeight_def cascade_noop)

lemma rollback_accepted:
  assumes "t \<le> getCurrentHeight db"
  shows "fst (rollback db t) = Success"
    and "tbl_blocks (snd (rollback db t)) = filter (\<lambda>b. \<not> height b > t) (tbl_blocks db)"
    and "tbl_outputs (snd (rollback db t)) =
           filter (\<lambda>r. \<not> block_height r > t) (map (unspendRow t) (tbl_outputs db))"
  by (simp_all add: rollback_accepted_state [OF assms])

lemma unspendRow_height [simp]: "block_height (unspendRow t r) = block_height r"
  by (simp add: unspendRow_def split: option.splits)

lemma unspendRow_spent_at:
  "spent_at_height (unspendRow t r) = Some x \<Longrightarrow> x \<le> t \<and> spent_at_height r = Some x"
  by (auto simp: unspendRow_def split: option.splits if_splits)

lemma unspendRow_id:
  "(\<forall>x. spent_at_height r = Some x \<longrightarrow> x \<le> t) \<Longrightarrow> unspendRow t r = r"
  by (auto simp: unspendRow_def split: option.splits)

lemma chainInv_rollback:
  assumes inv: "chainInv s"
  shows "chainInv (snd (rollback s t))"
proof (cases "t \<le> getCurrentHeight s")
  case False
  with inv show ?thesis by (simp add: rollback_rejected)
next
  case True
  let ?n = "getCurrentHeight s"
  let ?s' = "snd (rollback s t)"
  let ?m = "max 0 t"
  from inv have n0: "0 \<le> ?n" and hs: "map height (tbl_blocks s) = [1..?n]"
    and rb: "rowsBounded ?n s"
    by (simp_all add: chainInv_def)
  have "map height (tbl_blocks ?s') = filter (\<lambda>h. \<not> h > t) (map height (tbl_blocks s))"
    by (simp add: rollback_accepted(2) [OF True] filter_map comp_def)
  with hs filter_upto_above [OF True] have "map height (tbl_blocks ?s') = [1..t]"
    by simp
  then have hs': "map height (tbl_blocks ?s') = [1..?m]"
    by (cases "0 \<le> t") (simp_all add: max_def)
  then have ch: "getCurrentHeight ?s' = ?m"
    by (intro currentHeight_upto) simp_all
  have "rowsBounded ?m ?s'"
    unfolding rowsBounded_def rollback_accepted(3) [OF True]
  proof (intro ballI)
    fix r
    assume "r \<in> set (filter (\<lambda>r. \<not> block_height r > t) (map (unspendRow t) (tbl_outputs s)))"
    then obtain r0 where r0: "r0 \<in> set (tbl_outputs s)" and r: "r = unspendRow t r0"
      and le: "block_height r \<le> t"
      by auto
    from rb r0 have "1 \<le> block_height r0" by (simp add: rowsBounded_def)
    with r le have 1: "1 \<le> block_height r" "block_height r \<le> ?m" by simp_all
    have "\<forall>x. spent_at_height r = Some x \<longrightarrow> x \<le> ?m"
      using r unspendRow_spent_at [of t r0] by auto
    with 1 show "1 \<le> block_height r \<and> block_height r \<le> ?m \<and>
        (\<forall>x. spent_at_height r = Some x \<longrightarrow> x \<le> ?m)"
      by simp
  qed
  with hs' ch show ?thesis by (simp add: chainInv_def)
qed

lemma chainInv_empty: "chainInv emptyDB"
  by (simp add: chainInv_def emptyDB_def getCurrentHeight_def rowsBounded_def)

lemma reachable_chainInv: "reachable H s \<Longrightarrow> chainInv s"
  by (induction rule: reachable.induct)
     (simp_all add: chainInv_empty chainInv_addBlock chainInv_rollback)

lemma rollback_current_ledger:
  assumes "chainInv s"
  shows "tbl_blocks (snd (rollback s (getCurrentHeight s))) = tbl_blocks s \<and>
         tbl_outputs (snd (rollback s (getCurrentHeight s))) = tbl_outputs s"
proof -
  let ?n = "getCurrentHeight s"
  from assms have hs: "map height (tbl_blocks s) = [1..?n]"
    and rb: "rowsBounded ?n s"
    by (simp_all add: chainInv_def)
  have le: "?n \<le> ?n" by simp
  have "\<forall>b \<in> set (tbl_blocks s). height b \<in> set [1..?n]"
    using hs by (metis list.set_map imageI)
  then have b: "filter (\<lambda>b. \<not> height b > ?n) (tbl_blocks s) = tbl_blocks s"
    by (auto simp: filter_id_conv)
  from rb have "map (unspendRow ?n) (tbl_outputs s) = tbl_outputs s"
    by (auto simp: rowsBounded_def map_idI unspendRow_id)
  moreover from rb have "filter (\<lambda>r. \<not> block_height r > ?n) (tbl_outputs s) = tbl_outputs s"
    by (auto simp: rowsBounded_def filter_id_conv)
  ultimately show ?thesis
    using b by (simp add: rollback_accepted(2,3) [OF le])
qed

section \<open>Lemmas about \<^verbatim>\<open>addBlock\<close>\<close>

lemma processTransaction_Fail:
  "processTransaction db w tx h = Fail e \<Longrightarrow> e = UnspentOutputNotFound \<or> e = UnbalancedTransaction"
  unfolding processTransaction_def
  by (auto split: step.splits if_splits dest: processInputs_Fail simp: processOutputs_not_Fail)

lemma processTransactions_Fail:
  "processTransactions db w txs h = Fail e \<Longrightarrow> e = UnspentOutputNotFound \<or> e = UnbalancedTransaction"
  by (induction txs arbitrary: w) (auto split: step.splits dest: processTransaction_Fail)

lemma addBlock_InvalidHeight_iff:
  "fst (addBlock H db b) = Failure InvalidHeight \<longleftrightarrow> blk_height b \<noteq> getCurrentHeight db + 1"
  unfolding addBlock_def
  by (auto simp: Let_def split: sum.splits step.splits dest: processTransactions_Fail)

lemma addBlock_InvalidBlockId_iff:
  "fst (addBlock H db b) = Failure InvalidBlockId \<longleftrightarrow>
     blk_height b = getCurrentHeight db + 1 \<and>
     blk_id b \<noteq> calculateBlockId H (blk_height b) (transactions b)"
  unfolding addBlock_def
  by (auto simp: Let_def split: sum.splits step.splits dest: processTransactions_Fail)

lemma addBlock_at:
  assumes h: "blk_height b = getCurrentHeight db + 1"
    and i: "blk_id b = calculateBlockId H (blk_height b) (transactions b)"
    and k: "k < length (transactions b)"
    and w: "workingCopyAt db b k = Ok w"
  shows "processTransaction db w (transactions b ! k) (blk_height b) = Fail e \<Longrightarrow>
           addBlock H db b = (Failure e, db)"
    and "processTransaction db w (transactions b ! k) (blk_height b) = Throw x \<Longrightarrow>
           addBlock H db b = (Exception x, db)"
proof -
  from w obtain w0 where ib: "insertBlock db (blk_id b) (blk_height b) = Inr w0"
    and pre: "processTransactions db w0 (take k (transactions b)) (blk_height b) = Ok w"
    by (auto simp: workingCopyAt_def split: sum.splits)
  from k have split: "transactions b = take k (transactions b) @ (transactions b ! k) # drop (Suc k) (transactions b)"
    by (rule id_take_nth_drop)
  have run: "processTransactions db w0 (transactions b) (blk_height b) =
      (case processTransaction db w (transactions b ! k) (blk_height b) of
         Ok w' \<Rightarrow> processTransactions db w' (drop (Suc k) (transactions b)) (blk_height b)
       | Fail e \<Rightarrow> Fail e
       | Throw e \<Rightarrow> Throw e)"
    by (subst split, subst processTransactions_append) (simp add: pre)
  show "processTransaction db w (transactions b ! k) (blk_height b) = Fail e \<Longrightarrow>
           addBlock H db b = (Failure e, db)"
    using h i ib run by (simp add: addBlock_def)
  show "processTransaction db w (transactions b ! k) (blk_height b) = Throw x \<Longrightarrow>
           addBlock H db b = (Exception x, db)"
    using h i ib run by (simp add: addBlock_def)
qed

lemma workingCopyAt_Ok:
  assumes "workingCopyAt db b k = Ok w"
  shows "(\<exists>r \<in> set (tbl_blocks w). height r = blk_height b) \<and> outKeys db \<subseteq> outKeys w"
proof -
  from assms obtain w0 where ib: "insertBlock db (blk_id b) (blk_height b) = Inr w0"
    and pre: "processTransactions db w0 (take k (transactions b)) (blk_height b) = Ok w"
    by (auto simp: workingCopyAt_def split: sum.splits)
  from insertBlock_Inr [OF ib] processTransactions_Ok [OF pre]
  show ?thesis by (auto simp: outKeys_def)
qed


lemma input_not_in_committed_ledger_rejected:
  assumes "blk_height b = getCurrentHeight db + 1"
    and "blk_id b = calculateBlockId H (blk_height b) (transactions b)"
    and "k < length (transactions b)"
    and "workingCopyAt db b k = Ok w"
    and "\<not> inputsFound db (transactions b ! k)"
  shows "addBlock H db b = (Failure UnspentOutputNotFound, db)"
proof -
  let ?tx = "transactions b ! k"
  from processInputs_from_zero [of db w "txn_id ?tx" "blk_height b" "inputs ?tx"] assms(5)
  have "processInputs db w (txn_id ?tx) (blk_height b) (inputs ?tx) (Num 0) = Fail UnspentOutputNotFound"
    by (auto simp: inputsFound_def)
  then have "processTransaction db w ?tx (blk_height b) = Fail UnspentOutputNotFound"
    by (simp add: processTransaction_def)
  then show ?thesis by (rule addBlock_at(1) [OF assms(1-4)])
qed


section \<open>Lemmas about the rebuilt balances\<close>

lemma map_of_grouped:
  "map_of (map (\<lambda>a. (a, f a)) ks) a = (if a \<in> set ks then Some (f a) else None)"
  by (induction ks) auto

lemma sum_filter_cong:
  "(\<And>x. x \<in> set xs \<Longrightarrow> P x = Q x) \<Longrightarrow>
     sum_list (map f (filter P xs)) = sum_list (map f (filter Q xs))"
  by (induction xs) auto

lemma getBalance_recalculateBalances:
  "getBalance (recalculateBalances w t) a =
     sum_list (map val (filter (\<lambda>r. address r = a \<and> block_height r \<le> t \<and> spent r = False)
                          (tbl_outputs w)))"
proof -
  let ?rows = "filter (\<lambda>r. block_height r \<le> t \<and> spent r = False) (tbl_outputs w)"
  let ?f = "\<lambda>a. sum_list (map val (filter (\<lambda>r. address r = a) ?rows))"
  have bal: "tbl_balances (recalculateBalances w t) = map (\<lambda>a. (a, ?f a)) (remdups (map address ?rows))"
    by (simp add: recalculateBalances_def Let_def)
  have "getBalance (recalculateBalances w t) a = ?f a"
  proof (cases "a \<in> set (remdups (map address ?rows))")
    case True
    then show ?thesis
      unfolding getBalance_def bal map_of_grouped by simp
  next
    case False
    then have "filter (\<lambda>r. address r = a) ?rows = []"
      by (auto simp: filter_empty_conv)
    with False show ?thesis
      unfolding getBalance_def bal map_of_grouped by simp
  qed
  also have "?f a = sum_list (map val (filter (\<lambda>r. address r = a \<and> block_height r \<le> t \<and> spent r = False)
                          (tbl_outputs w)))"
    unfolding filter_filter by (rule sum_filter_cong) auto
  finally show ?thesis .
qed

lemma rollback_getBalance:
  assumes "t \<le> getCurrentHeight db"
  shows "getBalance (snd (rollback db t)) a =
     sum_list (map val (filter (\<lambda>r. address r = a \<and> block_height r \<le> t \<and> spent r = False)
                          (tbl_outputs (snd (rollback db t)))))"
  unfolding rollback_accepted_state [OF assms] snd_conv
  by (simp only: getBalance_recalculateBalances recalculateBalances_tables)


lemma processTransactions_prefix:
  "processTransactions db w (pre @ rest) h = Ok w' \<Longrightarrow>
     \<exists>w1. processTransactions db w pre h = Ok w1 \<and> processTransactions db w1 rest h = Ok w'"
  by (simp add: processTransactions_append split: step.splits)

lemma addBlock_duplicate_not_accepted:
  assumes tx: "tx \<in> set (transactions b)"
    and j: "j < length (outputs tx)"
    and key: "(txn_id tx, int j) \<in> outKeys db"
  shows "fst (addBlock H db b) \<noteq> Success"
proof
  assume acc: "fst (addBlock H db b) = Success"
  then obtain w0 where
    ib: "insertBlock db (blk_id b) (blk_height b) = Inr w0" and
    run: "processTransactions db w0 (transactions b) (blk_height b) = Ok (snd (addBlock H db b))"
    by (rule addBlock_Success)
  from tx obtain k where k: "k < length (transactions b)" and nth: "transactions b ! k = tx"
    by (auto simp: in_set_conv_nth)
  from k have split: "transactions b = take k (transactions b) @ tx # drop (Suc k) (transactions b)"
    using id_take_nth_drop [of k "transactions b"] nth by simp
  from run obtain w where
    pre: "processTransactions db w0 (take k (transactions b)) (blk_height b) = Ok w" and
    rest: "processTransactions db w (tx # drop (Suc k) (transactions b)) (blk_height b) =
             Ok (snd (addBlock H db b))"
    using processTransactions_prefix [of db w0 "take k (transactions b)"
        "tx # drop (Suc k) (transactions b)" "blk_height b" "snd (addBlock H db b)"] split
    by auto
  from rest obtain w' where ok: "processTransaction db w tx (blk_height b) = Ok w'"
    by (auto split: step.splits)
  from ib pre have wc: "workingCopyAt db b k = Ok w"
    by (simp add: workingCopyAt_def)
  from workingCopyAt_Ok [OF wc] key
  have fk: "\<exists>r \<in> set (tbl_blocks w). height r = blk_height b"
    and key': "(txn_id tx, int j) \<in> outKeys w"
    by auto
  from processTransaction_Ok_balanced [OF ok] have found: "inputsFound db tx" by simp
  from processTransaction_duplicate [OF fk found j key'] ok show False by simp
qed

section \<open>Balances and rollback on chains without repeated inputs\<close>

text \<open>
  On these chains the stored balance of every address is the sum of its unspent outputs
  (\<open>reachableNoRepeat_getBalance\<close>), and a rollback to an earlier height restores the
  blocks, the outputs and every balance of that height (\<open>rollback_round_trip\<close>).
\<close>

lemma map_of_upsertBalance:
  "map_of (upsertBalance bs a d) a' =
     (if a' = a then Some ((case map_of bs a of None \<Rightarrow> 0 | Some b \<Rightarrow> b) + d) else map_of bs a')"
  by (induction bs a d rule: upsertBalance.induct) auto

lemma getBalance_updateBalance:
  "getBalance (updateBalance w a d) a' = getBalance w a' + (if a' = a then d else 0)"
  by (simp add: getBalance_def updateBalance_def map_of_upsertBalance split: option.splits)

lemma mark_absent:
  "k \<notin> set (map (\<lambda>r. (tx_id r, output_index r)) rows) \<Longrightarrow>
     map (\<lambda>r. if tx_id r = fst k \<and> output_index r = snd k then f r else r) rows = rows"
  by (induction rows) auto

lemma mark_sum:
  assumes "distinct (map (\<lambda>r. (tx_id r, output_index r)) rows)"
    and "r \<in> set rows" and "spent r = False" and "tx_id r = t" and "output_index r = i"
  shows "sum_list (map val (filter (\<lambda>x. address x = a \<and> spent x = False)
            (map (\<lambda>x. if tx_id x = t \<and> output_index x = i
                       then x\<lparr>spent := True, spent_by_tx := Some b, spent_at_height := Some h\<rparr>
                       else x) rows))) =
         sum_list (map val (filter (\<lambda>x. address x = a \<and> spent x = False) rows)) -
           (if address r = a then val r else 0)"
  using assms
proof (induction rows)
  case Nil
  then show ?case by simp
next
  case (Cons x xs)
  show ?case
  proof (cases "tx_id x = t \<and> output_index x = i")
    case True
    with Cons.prems have nk: "(t, i) \<notin> set (map (\<lambda>r. (tx_id r, output_index r)) xs)"
      by auto
    with Cons.prems(2,4,5) have rx: "r = x"
      by (auto simp: image_iff)
    from mark_absent [OF nk, of "\<lambda>x. x\<lparr>spent := True, spent_by_tx := Some b, spent_at_height := Some h\<rparr>"]
    have "map (\<lambda>x. if tx_id x = t \<and> output_index x = i
                       then x\<lparr>spent := True, spent_by_tx := Some b, spent_at_height := Some h\<rparr>
                       else x) xs = xs"
      by simp
    with True rx Cons.prems(3) show ?thesis by simp
  next
    case False
    with Cons.prems have "r \<in> set xs" by auto
    with Cons.IH Cons.prems have IH: "sum_list (map val (filter (\<lambda>x. address x = a \<and> spent x = False)
            (map (\<lambda>x. if tx_id x = t \<and> output_index x = i
                       then x\<lparr>spent := True, spent_by_tx := Some b, spent_at_height := Some h\<rparr>
                       else x) xs))) =
         sum_list (map val (filter (\<lambda>x. address x = a \<and> spent x = False) xs)) -
           (if address r = a then val r else 0)"
      by simp
    from False IH show ?thesis by auto
  qed
qed

lemma ledgerSum_mark:
  assumes "keysDistinct w" and "r \<in> set (tbl_outputs w)" and "spent r = False"
    and "tx_id r = t" and "output_index r = i"
  shows "ledgerSum (markOutputAsSpent w t i b h) a =
           ledgerSum w a - (if address r = a then val r else 0)"
  using mark_sum [OF assms(1) [unfolded keysDistinct_def] assms(2-5), where a = a and b = b and h = h]
  by (simp add: ledgerSum_def markOutputAsSpent_def)

lemma ledgerSum_updateBalance [simp]: "ledgerSum (updateBalance w a d) a' = ledgerSum w a'"
  by (simp add: ledgerSum_def)

lemma keysDistinct_updateBalance [simp]: "keysDistinct (updateBalance w a d) = keysDistinct w"
  by (simp add: keysDistinct_def)

lemma keysDistinct_mark [simp]: "keysDistinct (markOutputAsSpent w t i b h) = keysDistinct w"
proof -
  have "map (\<lambda>r. (tx_id r, output_index r)) (tbl_outputs (markOutputAsSpent w t i b h)) =
        map (\<lambda>r. (tx_id r, output_index r)) (tbl_outputs w)"
    by (simp add: markOutputAsSpent_def)
  then show ?thesis by (simp add: keysDistinct_def)
qed

lemma insertOutput_balanced:
  assumes "insertOutput w t i a v h = Inr w'"
  shows "ledgerSum w' a' = ledgerSum w a' + (if a' = a then v else 0)"
    and "keysDistinct w \<Longrightarrow> keysDistinct w'"
    and "set (tbl_outputs w) \<subseteq> set (tbl_outputs w')"
  using assms
  by (auto simp: insertOutput_def ledgerSum_def keysDistinct_def image_iff split: if_splits)

lemma getUnspentOutput_Some:
  "getUnspentOutput db t i = Some r \<Longrightarrow>
     r \<in> set (tbl_outputs db) \<and> tx_id r = t \<and> output_index r = i \<and> spent r = False"
  by (auto simp: getUnspentOutput_def find_Some_iff)

lemma untouched_mono: "untouched db w K \<Longrightarrow> K' \<subseteq> K \<Longrightarrow> untouched db w K'"
  by (auto simp: untouched_def)

lemma untouched_updateBalance [simp]: "untouched db (updateBalance w a d) K = untouched db w K"
  by (simp add: untouched_def)

lemma untouched_mark:
  "untouched db w K \<Longrightarrow> (t, i) \<notin> K \<Longrightarrow> untouched db (markOutputAsSpent w t i b h) K"
  unfolding untouched_def markOutputAsSpent_def
  by (auto simp: image_iff)

lemma untouched_insert:
  "insertOutput w t i a v h = Inr w' \<Longrightarrow> untouched db w K \<Longrightarrow> untouched db w' K"
  by (auto simp: untouched_def insertOutput_def split: if_splits)

lemma getBalance_mark [simp]: "getBalance (markOutputAsSpent w t i b h) a = getBalance w a"
  by (simp add: getBalance_def markOutputAsSpent_def)

lemma balanced_spend:
  assumes "balanced w" "keysDistinct w" "r \<in> set (tbl_outputs w)" "spent r = False"
    "tx_id r = t" "output_index r = i" "representable (val r)"
  shows "balanced (updateBalance (markOutputAsSpent w t i b h) (address r) (- roundedValue (val r)))"
  unfolding balanced_def
proof
  fix a
  from assms(1) have "getBalance w a = ledgerSum w a" by (simp add: balanced_def)
  with ledgerSum_mark [OF assms(2-6), of b h a] assms(7)
  show "getBalance (updateBalance (markOutputAsSpent w t i b h) (address r) (- roundedValue (val r))) a =
        ledgerSum (updateBalance (markOutputAsSpent w t i b h) (address r) (- roundedValue (val r))) a"
    by (simp add: getBalance_updateBalance representable_def)
qed

lemma processInputs_balanced:
  "processInputs db w tid h ins s = Ok (w1, s1) \<Longrightarrow>
   keysDistinct w \<Longrightarrow> balanced w \<Longrightarrow>
   distinct (map (\<lambda>i. (txId i, index i)) ins @ R) \<Longrightarrow>
   untouched db w (set (map (\<lambda>i. (txId i, index i)) ins @ R)) \<Longrightarrow>
   exactAmounts db \<Longrightarrow>
   keysDistinct w1 \<and> balanced w1 \<and> untouched db w1 (set R)"
proof (induction ins arbitrary: w s)
  case Nil
  then show ?case by simp
next
  case (Cons inp rest)
  let ?t = "txId inp" and ?i = "index inp"
  from Cons.prems(1) obtain r where
    f: "getUnspentOutput db ?t ?i = Some r" and
    run: "processInputs db
            (updateBalance (markOutputAsSpent w ?t ?i tid h) (address r) (- roundedValue (val r)))
            tid h rest (jsAdd s (toNumber (val r))) = Ok (w1, s1)"
    by (auto split: option.splits)
  let ?w = "updateBalance (markOutputAsSpent w ?t ?i tid h) (address r) (- roundedValue (val r))"
  from getUnspentOutput_Some [OF f]
  have r: "r \<in> set (tbl_outputs db)" "tx_id r = ?t" "output_index r = ?i" "spent r = False"
    by simp_all
  with Cons.prems(5) have rw: "r \<in> set (tbl_outputs w)"
    by (auto simp: untouched_def)
  from r(1) Cons.prems(6) have ex: "representable (val r)"
    by (simp add: exactAmounts_def)
  have kd: "keysDistinct ?w" using Cons.prems(2) by simp
  have bal: "balanced ?w"
    by (rule balanced_spend [OF Cons.prems(3) Cons.prems(2) rw r(4) r(2) r(3) ex])
  from Cons.prems(4) have d: "distinct (map (\<lambda>i. (txId i, index i)) rest @ R)"
    and notin: "(?t, ?i) \<notin> set (map (\<lambda>i. (txId i, index i)) rest @ R)"
    by auto
  from Cons.prems(5) have "untouched db w (set (map (\<lambda>i. (txId i, index i)) rest @ R))"
    by (rule untouched_mono) auto
  with notin have un: "untouched db ?w (set (map (\<lambda>i. (txId i, index i)) rest @ R))"
    by (simp add: untouched_mark)
  from Cons.IH [OF run kd bal d un Cons.prems(6)] show ?case .
qed

lemma balanced_create:
  assumes "insertOutput w t i a v h = Inr w'" "balanced w"
  shows "balanced (updateBalance w' a v)"
  unfolding balanced_def
proof
  fix a'
  from assms(2) have "getBalance w a' = ledgerSum w a'" by (simp add: balanced_def)
  moreover from assms(1) have "getBalance w' a' = getBalance w a'"
    by (auto simp: insertOutput_def getBalance_def split: if_splits)
  ultimately show "getBalance (updateBalance w' a v) a' = ledgerSum (updateBalance w' a v) a'"
    using insertOutput_balanced(1) [OF assms(1), of a']
    by (simp add: getBalance_updateBalance)
qed

lemma processOutputs_balanced:
  "processOutputs w tid h i outs s = Ok (w2, s2) \<Longrightarrow>
   keysDistinct w \<Longrightarrow> balanced w \<Longrightarrow> untouched db w K \<Longrightarrow>
   keysDistinct w2 \<and> balanced w2 \<and> untouched db w2 K"
proof (induction outs arbitrary: w i s)
  case Nil
  then show ?case by simp
next
  case (Cons out rest)
  from Cons.prems(1) obtain w' where
    ins: "insertOutput w tid i (out_address out) (out_value out) h = Inr w'" and
    run: "processOutputs (updateBalance w' (out_address out) (out_value out)) tid h (i + 1) rest
          (jsAdd s (Num (out_value out))) = Ok (w2, s2)"
    by (auto split: sum.splits)
  let ?w = "updateBalance w' (out_address out) (out_value out)"
  have kd: "keysDistinct ?w"
    using insertOutput_balanced(2) [OF ins Cons.prems(2)] by simp
  have bal: "balanced ?w" by (rule balanced_create [OF ins Cons.prems(3)])
  have un: "untouched db ?w K"
    using untouched_insert [OF ins Cons.prems(4)] by simp
  from Cons.IH [OF run kd bal un] show ?case .
qed

lemma processTransaction_balanced:
  assumes "processTransaction db w tx h = Ok w'"
    and "keysDistinct w" "balanced w"
    and "distinct (map (\<lambda>i. (txId i, index i)) (inputs tx) @ R)"
    and "untouched db w (set (map (\<lambda>i. (txId i, index i)) (inputs tx) @ R))"
    and "exactAmounts db"
  shows "keysDistinct w' \<and> balanced w' \<and> untouched db w' (set R)"
proof -
  from assms(1) obtain w1 s1 s2 where
    i: "processInputs db w (txn_id tx) h (inputs tx) (Num 0) = Ok (w1, s1)" and
    o: "processOutputs w1 (txn_id tx) h 0 (outputs tx) (Num 0) = Ok (w', s2)"
    unfolding processTransaction_def
    by (auto split: step.splits if_splits)
  from processInputs_balanced [OF i assms(2-6)]
  have "keysDistinct w1" "balanced w1" "untouched db w1 (set R)" by simp_all
  from processOutputs_balanced [OF o this] show ?thesis .
qed

lemma processTransactions_balanced:
  "processTransactions db w txs h = Ok w' \<Longrightarrow>
   keysDistinct w \<Longrightarrow> balanced w \<Longrightarrow> distinct (inputKeys txs) \<Longrightarrow>
   untouched db w (set (inputKeys txs)) \<Longrightarrow> exactAmounts db \<Longrightarrow>
   keysDistinct w' \<and> balanced w'"
proof (induction txs arbitrary: w)
  case Nil
  then show ?case by simp
next
  case (Cons tx txs)
  from Cons.prems(1) obtain w1 where a: "processTransaction db w tx h = Ok w1"
    and r: "processTransactions db w1 txs h = Ok w'"
    by (auto split: step.splits)
  have k: "inputKeys (tx # txs) = map (\<lambda>i. (txId i, index i)) (inputs tx) @ inputKeys txs"
    by (simp add: inputKeys_def)
  from Cons.prems(4) have d: "distinct (inputKeys txs)"
    unfolding k by simp
  from processTransaction_balanced [OF a Cons.prems(2,3) Cons.prems(4) [unfolded k]
      Cons.prems(5) [unfolded k] Cons.prems(6)]
  have "keysDistinct w1" "balanced w1" "untouched db w1 (set (inputKeys txs))" by simp_all
  from Cons.IH [OF r this(1,2) d this(3) Cons.prems(6)] show ?case .
qed

lemma exactAmounts_updateBalance [simp]: "exactAmounts (updateBalance w a d) = exactAmounts w"
  by (simp add: exactAmounts_def)

lemma exactAmounts_mark [simp]: "exactAmounts (markOutputAsSpent w t i b h) = exactAmounts w"
proof -
  have "map val (tbl_outputs (markOutputAsSpent w t i b h)) = map val (tbl_outputs w)"
    by (simp add: markOutputAsSpent_def)
  then have "set (map val (tbl_outputs (markOutputAsSpent w t i b h))) =
             set (map val (tbl_outputs w))"
    by (rule arg_cong)
  then have img: "val ` set (tbl_outputs (markOutputAsSpent w t i b h)) = val ` set (tbl_outputs w)"
    unfolding set_map .
  have ex: "exactAmounts x \<longleftrightarrow> (\<forall>v \<in> val ` set (tbl_outputs x). representable v)" for x
    by (simp add: exactAmounts_def)
  show ?thesis unfolding ex img by (rule refl)
qed

lemma exactAmounts_insert:
  "insertOutput w t i a v h = Inr w' \<Longrightarrow> exactAmounts w \<Longrightarrow> representable v \<Longrightarrow>
     exactAmounts w'"
  by (auto simp: exactAmounts_def insertOutput_def split: if_splits)

lemma processInputs_exact:
  "processInputs db w tid h ins s = Ok (w1, s1) \<Longrightarrow> exactAmounts w \<Longrightarrow> exactAmounts w1"
  by (induction ins arbitrary: w s) (auto split: option.splits)

lemma processOutputs_exact:
  "processOutputs w tid h i outs s = Ok (w2, s2) \<Longrightarrow> exactAmounts w \<Longrightarrow>
   \<forall>output \<in> set outs. representable (out_value output) \<Longrightarrow> exactAmounts w2"
proof (induction outs arbitrary: w i s)
  case Nil
  then show ?case by simp
next
  case (Cons out rest)
  from Cons.prems(1) obtain w' where
    ins: "insertOutput w tid i (out_address out) (out_value out) h = Inr w'" and
    run: "processOutputs (updateBalance w' (out_address out) (out_value out)) tid h (i + 1) rest
          (jsAdd s (Num (out_value out))) = Ok (w2, s2)"
    by (auto split: sum.splits)
  from Cons.prems(3) have v: "representable (out_value out)"
    and rest: "\<forall>output \<in> set rest. representable (out_value output)"
    by simp_all
  from exactAmounts_insert [OF ins Cons.prems(2) v]
  have "exactAmounts (updateBalance w' (out_address out) (out_value out))" by simp
  from Cons.IH [OF run this rest] show ?case .
qed

lemma processTransactions_exact:
  "processTransactions db w txs h = Ok w' \<Longrightarrow> exactAmounts w \<Longrightarrow> representableAmounts txs \<Longrightarrow>
     exactAmounts w'"
proof (induction txs arbitrary: w)
  case Nil
  then show ?case by simp
next
  case (Cons tx txs)
  from Cons.prems(1) obtain w1 where a: "processTransaction db w tx h = Ok w1"
    and r: "processTransactions db w1 txs h = Ok w'"
    by (auto split: step.splits)
  from a obtain w0 s1 s2 where
    i: "processInputs db w (txn_id tx) h (inputs tx) (Num 0) = Ok (w0, s1)" and
    o: "processOutputs w0 (txn_id tx) h 0 (outputs tx) (Num 0) = Ok (w1, s2)"
    unfolding processTransaction_def
    by (auto split: step.splits if_splits)
  from Cons.prems(3) have v: "\<forall>output \<in> set (outputs tx). representable (out_value output)"
    and rest: "representableAmounts txs"
    by (simp_all add: representableAmounts_def)
  from processOutputs_exact [OF o processInputs_exact [OF i Cons.prems(2)] v]
  have "exactAmounts w1" .
  from Cons.IH [OF r this rest] show ?case .
qed

lemma addBlock_exact:
  assumes "exactAmounts s" "representableAmounts (transactions b)"
  shows "exactAmounts (snd (addBlock H s b))"
proof (cases "fst (addBlock H s b) = Success")
  case False
  with assms show ?thesis by (simp add: addBlock_not_Success)
next
  case True
  then obtain w where
    ib: "insertBlock s (blk_id b) (blk_height b) = Inr w" and
    pt: "processTransactions s w (transactions b) (blk_height b) = Ok (snd (addBlock H s b))"
    by (rule addBlock_Success)
  from insertBlock_Inr [OF ib] assms(1) have "exactAmounts w"
    by (simp add: exactAmounts_def)
  from processTransactions_exact [OF pt this assms(2)] show ?thesis .
qed

lemma rollback_exact:
  assumes "exactAmounts s"
  shows "exactAmounts (snd (rollback s t))"
proof (cases "t \<le> getCurrentHeight s")
  case False
  with assms show ?thesis by (simp add: rollback_rejected)
next
  case True
  have "val (unspendRow t r) = val r" for r
    by (simp add: unspendRow_def split: option.splits)
  with assms show ?thesis
    unfolding exactAmounts_def rollback_accepted(3) [OF True] by auto
qed

lemma addBlock_balanced:
  assumes "keysDistinct s" "balanced s" "distinct (inputKeys (transactions b))" "exactAmounts s"
  shows "keysDistinct (snd (addBlock H s b)) \<and> balanced (snd (addBlock H s b))"
proof (cases "fst (addBlock H s b) = Success")
  case False
  with assms show ?thesis by (simp add: addBlock_not_Success)
next
  case True
  then obtain w where
    ib: "insertBlock s (blk_id b) (blk_height b) = Inr w" and
    pt: "processTransactions s w (transactions b) (blk_height b) = Ok (snd (addBlock H s b))"
    by (rule addBlock_Success)
  from insertBlock_Inr [OF ib] assms(1,2)
  have "keysDistinct w" "balanced w" "untouched s w (set (inputKeys (transactions b)))"
    by (simp_all add: keysDistinct_def balanced_def getBalance_def ledgerSum_def untouched_def)
  from processTransactions_balanced [OF pt this(1,2) assms(3) this(3) assms(4)] show ?thesis .
qed

lemma rollback_balanced:
  assumes "keysDistinct s"
  shows "keysDistinct (snd (rollback s t)) \<and>
         (t \<le> getCurrentHeight s \<longrightarrow> balanced (snd (rollback s t)))"
proof (cases "t \<le> getCurrentHeight s")
  case False
  with assms show ?thesis by (simp add: rollback_rejected)
next
  case True
  let ?s' = "snd (rollback s t)"
  have outs: "tbl_outputs ?s' = filter (\<lambda>r. \<not> block_height r > t) (map (unspendRow t) (tbl_outputs s))"
    by (rule rollback_accepted(3) [OF True])
  have eq: "map (\<lambda>r. (tx_id r, output_index r)) (map (unspendRow t) (tbl_outputs s)) =
        map (\<lambda>r. (tx_id r, output_index r)) (tbl_outputs s)"
    by (simp add: unspendRow_def split: option.splits)
  have "distinct (map (\<lambda>r. (tx_id r, output_index r)) (map (unspendRow t) (tbl_outputs s)))"
    unfolding eq using assms by (simp add: keysDistinct_def)
  then have kd: "keysDistinct ?s'"
    unfolding keysDistinct_def outs by (rule distinct_map_filter)
  have "balanced ?s'"
    unfolding balanced_def
  proof
    fix a
    have "getBalance ?s' a =
       sum_list (map val (filter (\<lambda>r. address r = a \<and> block_height r \<le> t \<and> spent r = False)
                          (tbl_outputs ?s')))"
      by (rule rollback_getBalance [OF True])
    also have "\<dots> = ledgerSum ?s' a"
      unfolding ledgerSum_def by (rule sum_filter_cong) (auto simp: outs)
    finally show "getBalance ?s' a = ledgerSum ?s' a" .
  qed
  with kd show ?thesis by simp
qed

lemma reachableNoRepeat_reachable: "reachableNoRepeat H s \<Longrightarrow> reachable H s"
  by (induction rule: reachableNoRepeat.induct) (auto intro: reachable.intros)

lemma reachableNoRepeat_balanced:
  "reachableNoRepeat H s \<Longrightarrow> keysDistinct s \<and> balanced s \<and> exactAmounts s"
proof (induction rule: reachableNoRepeat.induct)
  case initialNR
  show ?case
    by (simp add: keysDistinct_def balanced_def emptyDB_def getBalance_def ledgerSum_def
        exactAmounts_def)
next
  case (addedNR s b)
  then show ?case by (simp add: addBlock_balanced addBlock_exact regularBlock_def)
next
  case (rolledNR s t)
  show ?case
  proof (cases "t \<le> getCurrentHeight s")
    case True
    with rollback_balanced [of s t] rollback_exact [of s t] rolledNR.IH show ?thesis by simp
  next
    case False
    with rolledNR.IH show ?thesis by (simp add: rollback_rejected)
  qed
qed

lemma unspentSum_ledgerSum: "chainInv s \<Longrightarrow> unspentSum s a = ledgerSum s a"
  unfolding unspentSum_def ledgerSum_def
  by (rule sum_filter_cong) (auto simp: chainInv_def rowsBounded_def)

lemma reachableNoRepeat_getBalance:
  assumes "reachableNoRepeat H s"
  shows "getBalance s a = unspentSum s a"
proof -
  from assms have "chainInv s"
    by (intro reachable_chainInv reachableNoRepeat_reachable)
  with reachableNoRepeat_balanced [OF assms] show ?thesis
    by (simp add: unspentSum_ledgerSum balanced_def)
qed

lemma rowsWf_updateBalance [simp]: "rowsWf (updateBalance w a d) = rowsWf w"
  by (simp add: rowsWf_def)

lemma rowsWf_mark: "rowsWf w \<Longrightarrow> rowsWf (markOutputAsSpent w t i b h)"
  by (auto simp: rowsWf_def markOutputAsSpent_def)

lemma rowsWf_insert: "insertOutput w t i a v h = Inr w' \<Longrightarrow> rowsWf w \<Longrightarrow> rowsWf w'"
  by (auto simp: rowsWf_def insertOutput_def split: if_splits)

lemma below_updateBalance [simp]: "below k (updateBalance w a d) = below k w"
  by (simp add: below_def)

lemma below_insert:
  "insertOutput w t i a v h = Inr w' \<Longrightarrow> k < h \<Longrightarrow> below k w' = below k w"
  by (auto simp: below_def insertOutput_def unspendRow_def split: if_splits)

lemma same_key_same_row:
  "keysDistinct w \<Longrightarrow> x \<in> set (tbl_outputs w) \<Longrightarrow> y \<in> set (tbl_outputs w) \<Longrightarrow>
     tx_id x = tx_id y \<Longrightarrow> output_index x = output_index y \<Longrightarrow> x = y"
  unfolding keysDistinct_def distinct_map
  by (auto dest: inj_onD)

lemma below_mark:
  assumes kd: "keysDistinct w" and r: "r \<in> set (tbl_outputs w)"
    and wf: "spent r = False" "spent_by_tx r = None" "spent_at_height r = None"
    and key: "tx_id r = t" "output_index r = i" and kh: "k < h"
  shows "below k (markOutputAsSpent w t i b h) = below k w"
proof -
  have "map (unspendRow k) (tbl_outputs (markOutputAsSpent w t i b h)) =
        map (unspendRow k) (tbl_outputs w)"
    unfolding markOutputAsSpent_def
  proof (simp, intro ballI impI)
    fix x
    assume x: "x \<in> set (tbl_outputs w)" and "tx_id x = t \<and> output_index x = i"
    with same_key_same_row [OF kd x r] key have "x = r" by simp
    with wf kh show "unspendRow k (x\<lparr>spent := True, spent_by_tx := Some b, spent_at_height := Some h\<rparr>) =
        unspendRow k x"
      by (simp add: unspendRow_def)
  qed
  then show ?thesis by (simp add: below_def)
qed

lemma processInputs_below:
  "processInputs db w tid h ins s = Ok (w1, s1) \<Longrightarrow>
   keysDistinct w \<Longrightarrow> rowsWf db \<Longrightarrow> rowsWf w \<Longrightarrow> k < h \<Longrightarrow>
   distinct (map (\<lambda>i. (txId i, index i)) ins @ R) \<Longrightarrow>
   untouched db w (set (map (\<lambda>i. (txId i, index i)) ins @ R)) \<Longrightarrow>
   rowsWf w1 \<and> below k w1 = below k w"
proof (induction ins arbitrary: w s)
  case Nil
  then show ?case by simp
next
  case (Cons inp rest)
  let ?t = "txId inp" and ?i = "index inp"
  from Cons.prems(1) obtain r where
    f: "getUnspentOutput db ?t ?i = Some r" and
    run: "processInputs db
            (updateBalance (markOutputAsSpent w ?t ?i tid h) (address r) (- roundedValue (val r)))
            tid h rest (jsAdd s (toNumber (val r))) = Ok (w1, s1)"
    by (auto split: option.splits)
  let ?w = "updateBalance (markOutputAsSpent w ?t ?i tid h) (address r) (- roundedValue (val r))"
  from getUnspentOutput_Some [OF f]
  have r: "r \<in> set (tbl_outputs db)" "tx_id r = ?t" "output_index r = ?i" "spent r = False"
    by simp_all
  with Cons.prems(3) have wf: "spent_by_tx r = None" "spent_at_height r = None"
    by (auto simp: rowsWf_def)
  from r Cons.prems(7) have rw: "r \<in> set (tbl_outputs w)"
    by (auto simp: untouched_def)
  have kd: "keysDistinct ?w" using Cons.prems(2) by simp
  have wfw: "rowsWf ?w" using Cons.prems(4) by (simp add: rowsWf_mark)
  have b: "below k ?w = below k w"
    using below_mark [OF Cons.prems(2) rw r(4) wf r(2,3) Cons.prems(5)] by simp
  from Cons.prems(6) have d: "distinct (map (\<lambda>i. (txId i, index i)) rest @ R)"
    and notin: "(?t, ?i) \<notin> set (map (\<lambda>i. (txId i, index i)) rest @ R)"
    by auto
  from Cons.prems(7) have "untouched db w (set (map (\<lambda>i. (txId i, index i)) rest @ R))"
    by (rule untouched_mono) auto
  with notin have un: "untouched db ?w (set (map (\<lambda>i. (txId i, index i)) rest @ R))"
    by (simp add: untouched_mark)
  from Cons.IH [OF run kd Cons.prems(3) wfw Cons.prems(5) d un] b show ?case by simp
qed

lemma processOutputs_below:
  "processOutputs w tid h i outs s = Ok (w2, s2) \<Longrightarrow> rowsWf w \<Longrightarrow> k < h \<Longrightarrow>
   rowsWf w2 \<and> below k w2 = below k w"
proof (induction outs arbitrary: w i s)
  case Nil
  then show ?case by simp
next
  case (Cons out rest)
  from Cons.prems(1) obtain w' where
    ins: "insertOutput w tid i (out_address out) (out_value out) h = Inr w'" and
    run: "processOutputs (updateBalance w' (out_address out) (out_value out)) tid h (i + 1) rest
          (jsAdd s (Num (out_value out))) = Ok (w2, s2)"
    by (auto split: sum.splits)
  let ?w = "updateBalance w' (out_address out) (out_value out)"
  have wf: "rowsWf ?w" using rowsWf_insert [OF ins Cons.prems(2)] by simp
  have b: "below k ?w = below k w" using below_insert [OF ins Cons.prems(3)] by simp
  from Cons.IH [OF run wf Cons.prems(3)] b show ?case by simp
qed

lemma processTransaction_below:
  assumes "processTransaction db w tx h = Ok w'"
    and "keysDistinct w" "balanced w" "rowsWf db" "rowsWf w" "k < h"
    and "distinct (map (\<lambda>i. (txId i, index i)) (inputs tx) @ R)"
    and "untouched db w (set (map (\<lambda>i. (txId i, index i)) (inputs tx) @ R))"
  shows "rowsWf w' \<and> below k w' = below k w"
proof -
  from assms(1) obtain w1 s1 s2 where
    i: "processInputs db w (txn_id tx) h (inputs tx) (Num 0) = Ok (w1, s1)" and
    o: "processOutputs w1 (txn_id tx) h 0 (outputs tx) (Num 0) = Ok (w', s2)"
    unfolding processTransaction_def
    by (auto split: step.splits if_splits)
  from processInputs_below [OF i assms(2,4,5,6,7,8)]
  have 1: "rowsWf w1" "below k w1 = below k w" by simp_all
  from processOutputs_below [OF o 1(1) assms(6)] 1(2) show ?thesis by simp
qed

lemma processTransactions_below:
  "processTransactions db w txs h = Ok w' \<Longrightarrow>
   keysDistinct w \<Longrightarrow> balanced w \<Longrightarrow> rowsWf db \<Longrightarrow> rowsWf w \<Longrightarrow> k < h \<Longrightarrow>
   distinct (inputKeys txs) \<Longrightarrow> untouched db w (set (inputKeys txs)) \<Longrightarrow>
   exactAmounts db \<Longrightarrow>
   rowsWf w' \<and> below k w' = below k w"
proof (induction txs arbitrary: w)
  case Nil
  then show ?case by simp
next
  case (Cons tx txs)
  from Cons.prems(1) obtain w1 where a: "processTransaction db w tx h = Ok w1"
    and r: "processTransactions db w1 txs h = Ok w'"
    by (auto split: step.splits)
  have k: "inputKeys (tx # txs) = map (\<lambda>i. (txId i, index i)) (inputs tx) @ inputKeys txs"
    by (simp add: inputKeys_def)
  from Cons.prems(7) have d: "distinct (inputKeys txs)"
    unfolding k by simp
  from processTransaction_balanced [OF a Cons.prems(2,3) Cons.prems(7) [unfolded k]
      Cons.prems(8) [unfolded k] Cons.prems(9)]
  have 1: "keysDistinct w1" "balanced w1" "untouched db w1 (set (inputKeys txs))" by simp_all
  from processTransaction_below [OF a Cons.prems(2,3,4,5,6) Cons.prems(7) [unfolded k]
      Cons.prems(8) [unfolded k]]
  have 2: "rowsWf w1" "below k w1 = below k w" by simp_all
  from Cons.IH [OF r 1(1,2) Cons.prems(4) 2(1) Cons.prems(6) d 1(3) Cons.prems(9)] 2(2)
  show ?case by simp
qed

lemma addBlock_below:
  assumes acc: "fst (addBlock H s b) = Success"
    and "keysDistinct s" "balanced s" "rowsWf s" "k \<le> getCurrentHeight s"
    and "distinct (inputKeys (transactions b))" "exactAmounts s"
  shows "rowsWf (snd (addBlock H s b)) \<and> below k (snd (addBlock H s b)) = below k s \<and>
         filter (\<lambda>r. \<not> height r > k) (tbl_blocks (snd (addBlock H s b))) =
           filter (\<lambda>r. \<not> height r > k) (tbl_blocks s)"
proof -
  from acc obtain w where
    h: "blk_height b = getCurrentHeight s + 1" and
    ib: "insertBlock s (blk_id b) (blk_height b) = Inr w" and
    pt: "processTransactions s w (transactions b) (blk_height b) = Ok (snd (addBlock H s b))"
    by (rule addBlock_Success)
  from h assms(5) have kh: "k < blk_height b" by simp
  from insertBlock_Inr [OF ib] assms(2,3,4)
  have w: "keysDistinct w" "balanced w" "rowsWf w" "untouched s w (set (inputKeys (transactions b)))"
    "below k w = below k s"
    by (simp_all add: keysDistinct_def balanced_def getBalance_def ledgerSum_def untouched_def
        rowsWf_def below_def)
  from processTransactions_below [OF pt w(1,2) assms(4) w(3) kh assms(6) w(4) assms(7)] w(5)
  have 1: "rowsWf (snd (addBlock H s b))" "below k (snd (addBlock H s b)) = below k s"
    by simp_all
  from insertBlock_Inr [OF ib] processTransactions_Ok [OF pt] kh
  have "filter (\<lambda>r. \<not> height r > k) (tbl_blocks (snd (addBlock H s b))) =
           filter (\<lambda>r. \<not> height r > k) (tbl_blocks s)"
    by simp
  with 1 show ?thesis by simp
qed

lemma addBlock_Success_height:
  assumes "fst (addBlock H s b) = Success" "chainInv s"
  shows "getCurrentHeight (snd (addBlock H s b)) = getCurrentHeight s + 1"
proof -
  from assms(1) obtain w where
    h: "blk_height b = getCurrentHeight s + 1" and
    ib: "insertBlock s (blk_id b) (blk_height b) = Inr w" and
    pt: "processTransactions s w (transactions b) (blk_height b) = Ok (snd (addBlock H s b))"
    by (rule addBlock_Success)
  let ?n = "getCurrentHeight s"
  from assms(2) have n0: "0 \<le> ?n" and hs: "map height (tbl_blocks s) = [1..?n]"
    by (simp_all add: chainInv_def)
  from insertBlock_Inr [OF ib] processTransactions_Ok [OF pt]
  have "map height (tbl_blocks (snd (addBlock H s b))) = [1..?n] @ [?n + 1]"
    using hs h by simp
  moreover from n0 have "[1..?n + 1] = [1..?n] @ [?n + 1]"
    using upto_rec2 [of 1 "?n + 1"] by simp
  ultimately have "map height (tbl_blocks (snd (addBlock H s b))) = [1..?n + 1]"
    by simp
  with n0 show ?thesis by (intro currentHeight_upto) simp_all
qed

lemma acceptAll_below:
  "acceptAll H s bs = Some s' \<Longrightarrow>
   chainInv s \<Longrightarrow> keysDistinct s \<Longrightarrow> balanced s \<Longrightarrow> rowsWf s \<Longrightarrow> k \<le> getCurrentHeight s \<Longrightarrow>
   \<forall>b \<in> set bs. regularBlock b \<Longrightarrow> exactAmounts s \<Longrightarrow>
   below k s' = below k s \<and>
   filter (\<lambda>r. \<not> height r > k) (tbl_blocks s') = filter (\<lambda>r. \<not> height r > k) (tbl_blocks s) \<and>
   getCurrentHeight s' = getCurrentHeight s + int (length bs)"
proof (induction bs arbitrary: s)
  case Nil
  then show ?case by simp
next
  case (Cons b bs)
  let ?s1 = "snd (addBlock H s b)"
  from Cons.prems(1) have acc: "fst (addBlock H s b) = Success"
    and rest: "acceptAll H ?s1 bs = Some s'"
    by (auto split: if_splits)
  from Cons.prems(7) have db: "distinct (inputKeys (transactions b))"
    and rb: "representableAmounts (transactions b)"
    and dbs: "\<forall>b \<in> set bs. regularBlock b"
    by (simp_all add: regularBlock_def)
  have inv1: "chainInv ?s1" by (rule chainInv_addBlock [OF Cons.prems(2)])
  from addBlock_balanced [OF Cons.prems(3,4) db Cons.prems(8)]
  have kb: "keysDistinct ?s1" "balanced ?s1" by simp_all
  have ex1: "exactAmounts ?s1" by (rule addBlock_exact [OF Cons.prems(8) rb])
  from addBlock_below [OF acc Cons.prems(3,4,5,6) db Cons.prems(8)]
  have bl: "rowsWf ?s1" "below k ?s1 = below k s"
    "filter (\<lambda>r. \<not> height r > k) (tbl_blocks ?s1) = filter (\<lambda>r. \<not> height r > k) (tbl_blocks s)"
    by simp_all
  have h1: "getCurrentHeight ?s1 = getCurrentHeight s + 1"
    by (rule addBlock_Success_height [OF acc Cons.prems(2)])
  with Cons.prems(6) have k1: "k \<le> getCurrentHeight ?s1" by simp
  from Cons.IH [OF rest inv1 kb bl(1) k1 dbs ex1] bl(2,3) h1 show ?case by simp
qed

lemma acceptAll_invariants:
  "acceptAll H s bs = Some s' \<Longrightarrow> reachableNoRepeat H s \<Longrightarrow> rowsWf s \<Longrightarrow>
   \<forall>b \<in> set bs. regularBlock b \<Longrightarrow>
   reachableNoRepeat H s' \<and> rowsWf s'"
proof (induction bs arbitrary: s)
  case Nil
  then show ?case by simp
next
  case (Cons b bs)
  let ?s1 = "snd (addBlock H s b)"
  from Cons.prems(1) have acc: "fst (addBlock H s b) = Success"
    and rest: "acceptAll H ?s1 bs = Some s'"
    by (auto split: if_splits)
  from Cons.prems(4) have rb: "regularBlock b"
    and dbs: "\<forall>b \<in> set bs. regularBlock b"
    by simp_all
  from rb have db: "distinct (inputKeys (transactions b))"
    by (simp add: regularBlock_def)
  have r1: "reachableNoRepeat H ?s1" by (rule addedNR [OF Cons.prems(2) rb])
  from reachableNoRepeat_balanced [OF Cons.prems(2)]
  have kb: "keysDistinct s" "balanced s" and ex: "exactAmounts s" by simp_all
  have le: "getCurrentHeight s \<le> getCurrentHeight s" by simp
  from addBlock_below [OF acc kb Cons.prems(3) le db ex] have wf1: "rowsWf ?s1" by simp
  from Cons.IH [OF rest r1 wf1 dbs] show ?case .
qed

lemma below_current:
  assumes "chainInv s"
  shows "below (getCurrentHeight s) s = tbl_outputs s"
    and "filter (\<lambda>r. \<not> height r > getCurrentHeight s) (tbl_blocks s) = tbl_blocks s"
proof -
  have le: "getCurrentHeight s \<le> getCurrentHeight s" by simp
  from rollback_current_ledger [OF assms] rollback_accepted(2,3) [OF le]
  show "below (getCurrentHeight s) s = tbl_outputs s"
    and "filter (\<lambda>r. \<not> height r > getCurrentHeight s) (tbl_blocks s) = tbl_blocks s"
    by (simp_all add: below_def)
qed

lemma rollback_round_trip:
  assumes pre: "acceptAll H emptyDB pre = Some sk"
    and post: "acceptAll H sk post = Some sn"
    and nr: "\<forall>b \<in> set (pre @ post). regularBlock b"
  shows "getCurrentHeight sk = int (length pre) \<and>
         fst (rollback sn (int (length pre))) = Success \<and>
         tbl_blocks (snd (rollback sn (int (length pre)))) = tbl_blocks sk \<and>
         tbl_outputs (snd (rollback sn (int (length pre)))) = tbl_outputs sk \<and>
         (\<forall>a. getBalance (snd (rollback sn (int (length pre)))) a = getBalance sk a)"
proof -
  let ?k = "int (length pre)"
  from nr have nr1: "\<forall>b \<in> set pre. regularBlock b"
    and nr2: "\<forall>b \<in> set post. regularBlock b"
    by simp_all
  have e1: "reachableNoRepeat H emptyDB" by (rule initialNR)
  have e3: "chainInv emptyDB" by (rule chainInv_empty)
  have e2: "rowsWf emptyDB" "keysDistinct emptyDB" "balanced emptyDB" "getCurrentHeight emptyDB = 0"
    "exactAmounts emptyDB"
    by (simp_all add: rowsWf_def emptyDB_def keysDistinct_def
        balanced_def getBalance_def ledgerSum_def getCurrentHeight_def exactAmounts_def)
  note e = e1 e2(1) e3 e2(2,3,4)
  from acceptAll_invariants [OF pre e(1,2) nr1]
  have rk: "reachableNoRepeat H sk" and wfk: "rowsWf sk" by simp_all
  from acceptAll_below [OF pre e(3,4,5,2) _ nr1 e2(5), of 0] e(6)
  have hk: "getCurrentHeight sk = ?k" by simp
  from rk have invk: "chainInv sk"
    by (intro reachable_chainInv reachableNoRepeat_reachable)
  from reachableNoRepeat_balanced [OF rk] have kb: "keysDistinct sk" "balanced sk"
    and exk: "exactAmounts sk" by simp_all
  have lek: "?k \<le> getCurrentHeight sk" using hk by simp
  from acceptAll_below [OF post invk kb wfk lek nr2 exk]
  have b: "below ?k sn = below ?k sk"
    and bl: "filter (\<lambda>r. \<not> height r > ?k) (tbl_blocks sn) =
             filter (\<lambda>r. \<not> height r > ?k) (tbl_blocks sk)"
    and hn: "getCurrentHeight sn = getCurrentHeight sk + int (length post)"
    by simp_all
  from hn hk have len: "?k \<le> getCurrentHeight sn" by simp
  from below_current [OF invk] hk
  have cur: "below ?k sk = tbl_outputs sk"
    "filter (\<lambda>r. \<not> height r > ?k) (tbl_blocks sk) = tbl_blocks sk"
    by simp_all
  have ok: "fst (rollback sn ?k) = Success" by (rule rollback_accepted(1) [OF len])
  have blocks: "tbl_blocks (snd (rollback sn ?k)) = tbl_blocks sk"
    using rollback_accepted(2) [OF len] bl cur(2) by simp
  have outs: "tbl_outputs (snd (rollback sn ?k)) = tbl_outputs sk"
    using rollback_accepted(3) [OF len] b cur(1) by (simp add: below_def)
  have bal: "getBalance (snd (rollback sn ?k)) a = getBalance sk a" for a
  proof -
    have "getBalance (snd (rollback sn ?k)) a =
       sum_list (map val (filter (\<lambda>r. address r = a \<and> block_height r \<le> ?k \<and> spent r = False)
                          (tbl_outputs sk)))"
      using rollback_getBalance [OF len, of a] outs by simp
    also have "\<dots> = unspentSum sk a"
      unfolding unspentSum_def hk by (rule sum_filter_cong) auto
    also have "\<dots> = getBalance sk a"
      by (rule reachableNoRepeat_getBalance [OF rk, symmetric])
    finally show ?thesis .
  qed
  from hk ok blocks outs bal show ?thesis by simp
qed

section \<open>Evaluating the concrete chains\<close>

lemmas eval_defs =
  addBlock_def emptyDB_def calculateBlockId_def decimal_def decimalNat.simps
  getCurrentHeight_def insertBlock_def processTransaction_def getUnspentOutput_def
  insertOutput_def markOutputAsSpent_def updateBalance_def getBalance_def rollback_def
  unspendAboveHeight_def unspendRow_def deleteOutputsAboveHeight_def
  deleteBlocksAboveHeight_def recalculateBalances_def workingCopyAt_def unspentSum_def
  inputsFound_def inputSum_def outputSum_def outKeys_def toNumber_small roundedValue_small
  inputValues_def exactInputSum_def exactOutputSum_def safeAmounts_def


lemma afterGenesis_eq:
  "afterGenesis =
     \<lparr>tbl_blocks = [\<lparr>rec_id = ''1tx1'', height = 1\<rparr>],
      tbl_outputs = [\<lparr>tx_id = ''tx1'', output_index = 0, address = ''addr1'', val = 100,
                      block_height = 1, spent = False, spent_by_tx = None,
                      spent_at_height = None\<rparr>],
      tbl_balances = [(''addr1'', 100)]\<rparr>"
  by (simp add: afterGenesis_def testHash_def mkBlock_def coinbaseTx_def eval_defs)

lemma afterSpend_eq:
  "afterSpend =
     \<lparr>tbl_blocks = [\<lparr>rec_id = ''1tx1'', height = 1\<rparr>, \<lparr>rec_id = ''2tx2'', height = 2\<rparr>],
      tbl_outputs = [\<lparr>tx_id = ''tx1'', output_index = 0, address = ''addr1'', val = 100,
                      block_height = 1, spent = True, spent_by_tx = Some ''tx2'',
                      spent_at_height = Some 2\<rparr>,
                     \<lparr>tx_id = ''tx2'', output_index = 0, address = ''addr2'', val = 60,
                      block_height = 2, spent = False, spent_by_tx = None,
                      spent_at_height = None\<rparr>,
                     \<lparr>tx_id = ''tx2'', output_index = 1, address = ''addr3'', val = 40,
                      block_height = 2, spent = False, spent_by_tx = None,
                      spent_at_height = None\<rparr>],
      tbl_balances = [(''addr1'', 0), (''addr2'', 60), (''addr3'', 40)]\<rparr>"
  unfolding afterSpend_def afterGenesis_eq
  by (simp add: testHash_def mkBlock_def spendTx_def eval_defs)

lemma afterDoubleSpend_eq:
  "afterDoubleSpend =
     \<lparr>tbl_blocks = [\<lparr>rec_id = ''1tx1'', height = 1\<rparr>, \<lparr>rec_id = ''2tx2'', height = 2\<rparr>],
      tbl_outputs = [\<lparr>tx_id = ''tx1'', output_index = 0, address = ''addr1'', val = 100,
                      block_height = 1, spent = True, spent_by_tx = Some ''tx2'',
                      spent_at_height = Some 2\<rparr>,
                     \<lparr>tx_id = ''tx2'', output_index = 0, address = ''addr2'', val = 200,
                      block_height = 2, spent = False, spent_by_tx = None,
                      spent_at_height = None\<rparr>],
      tbl_balances = [(''addr1'', - 100), (''addr2'', 200)]\<rparr>"
  unfolding afterDoubleSpend_def afterGenesis_eq
  by (simp add: testHash_def mkBlock_def doubleSpendTx_def eval_defs)

lemma afterThird_eq:
  "afterThird =
     afterDoubleSpend\<lparr>tbl_blocks := tbl_blocks afterDoubleSpend @ [\<lparr>rec_id = ''3'', height = 3\<rparr>]\<rparr>"
  unfolding afterThird_def afterDoubleSpend_eq
  by (simp add: testHash_def mkBlock_def eval_defs)


lemma reachable_afterGenesis: "reachable testHash afterGenesis"
  unfolding afterGenesis_def by (intro reachable.added reachable.initial)

lemma reachable_afterSpend: "reachable testHash afterSpend"
  unfolding afterSpend_def by (intro reachable.added reachable_afterGenesis)

lemma reachable_afterDoubleSpend: "reachable testHash afterDoubleSpend"
  unfolding afterDoubleSpend_def by (intro reachable.added reachable_afterGenesis)

section \<open>The claims\<close>

subsection \<open>C1: double spend\<close>

text \<open>
  C1 says that an input whose output is missing or already spent makes \<^verbatim>\<open>addBlock\<close> fail
  with \<^verbatim>\<open>UnspentOutputNotFound\<close>, also when the output was spent by an earlier input of
  the same block, so that a second attempt to spend an output always fails. An input
  whose output is missing or spent in the committed tables is rejected
  (\<open>input_not_in_committed_ledger_rejected\<close>). But the lookup \<^verbatim>\<open>getUnspentOutput\<close> reads
  the committed tables, where a spend made earlier in the same call is not visible. On
  the chain that holds the one coinbase output \<^verbatim>\<open>tx1:0\<close> worth 100, the block of height 2
  whose transaction \<^verbatim>\<open>tx2\<close> lists \<^verbatim>\<open>tx1:0\<close> twice as input and creates one output worth
  200 is accepted: the second attempt succeeds, \<^verbatim>\<open>addr1\<close> is debited twice and ends at
  \<open>-100\<close>, and 200 are credited to \<^verbatim>\<open>addr2\<close>.
\<close>

theorem double_spend_in_one_block_accepted:
  "fst (addBlock testHash emptyDB (mkBlock testHash 1 [coinbaseTx])) = Success \<and>
   getUnspentOutput afterGenesis ''tx1'' 0 \<noteq> None \<and>
   inputs doubleSpendTx = [\<lparr>txId = ''tx1'', index = 0\<rparr>, \<lparr>txId = ''tx1'', index = 0\<rparr>] \<and>
   addBlock testHash afterGenesis (mkBlock testHash 2 [doubleSpendTx]) =
     (Success, afterDoubleSpend) \<and>
   getBalance afterDoubleSpend ''addr1'' = - 100 \<and>
   getBalance afterDoubleSpend ''addr2'' = 200"
  unfolding afterDoubleSpend_eq
  unfolding afterGenesis_eq
  by (simp add: testHash_def mkBlock_def doubleSpendTx_def coinbaseTx_def eval_defs)

subsection \<open>C2: rollback and the balances\<close>

text \<open>
  C2 says that after accepting \<open>B1..Bn\<close> from the empty chain, \<^verbatim>\<open>rollback(k)\<close> with
  \<open>k < n\<close> succeeds and gives every address the balance it had right after \<open>B1..Bk\<close>.
  With \<open>B1\<close> the coinbase block, \<open>B2\<close> the block that spends \<^verbatim>\<open>tx1:0\<close> twice and \<open>B3\<close>
  an empty block, all three are accepted and \<^verbatim>\<open>rollback(2)\<close> succeeds, but \<^verbatim>\<open>addr1\<close> read
  \<open>-100\<close> after \<open>B2\<close> and reads \<open>0\<close> after the rollback. On chains none of whose blocks
  names an output twice, with representable amounts, the claim holds
  (\<open>rollback_round_trip\<close>).
\<close>

theorem rollback_does_not_restore_balance:
  "fst (addBlock testHash emptyDB (mkBlock testHash 1 [coinbaseTx])) = Success \<and>
   fst (addBlock testHash afterGenesis (mkBlock testHash 2 [doubleSpendTx])) = Success \<and>
   fst (addBlock testHash afterDoubleSpend (mkBlock testHash 3 [])) = Success \<and>
   fst (rollback afterThird 2) = Success \<and>
   getBalance afterDoubleSpend ''addr1'' = - 100 \<and>
   getBalance (snd (rollback afterThird 2)) ''addr1'' = 0"
  unfolding afterThird_eq
  unfolding afterDoubleSpend_eq
  unfolding afterGenesis_eq
  by (simp add: testHash_def mkBlock_def doubleSpendTx_def coinbaseTx_def eval_defs)

subsection \<open>C3: stored balance and unspent outputs\<close>

text \<open>
  C3 says that in every reachable state the stored balance of an address is the sum of
  the values of its unspent outputs created at or below the current height. In the
  state reached by the coinbase block and the block that spends \<^verbatim>\<open>tx1:0\<close> twice, the
  stored balance of \<^verbatim>\<open>addr1\<close> is \<open>-100\<close> and its only output is spent, so the sum is 0.
  In the states reached without a block that names an output twice, with representable
  amounts, the claim holds (\<open>reachableNoRepeat_getBalance\<close>).
\<close>

theorem stored_balance_differs_from_unspent_sum:
  "reachable testHash afterDoubleSpend \<and>
   getBalance afterDoubleSpend ''addr1'' = - 100 \<and>
   unspentSum afterDoubleSpend ''addr1'' = 0"
  using reachable_afterDoubleSpend
  unfolding afterDoubleSpend_eq
  by (simp add: eval_defs)

subsection \<open>C4: a validation error commits nothing\<close>

text \<open>
  C4: whenever \<^verbatim>\<open>addBlock\<close> returns a validation error, which is then one of
  \<^verbatim>\<open>InvalidHeight\<close>, \<^verbatim>\<open>InvalidBlockId\<close>, \<^verbatim>\<open>UnspentOutputNotFound\<close> and
  \<^verbatim>\<open>UnbalancedTransaction\<close>, the committed state after the call is the state before it,
  at whatever point of the call the error is found.
\<close>

theorem addBlock_validation_error_leaves_state:
  assumes "fst (addBlock H db b) = Failure e"
  shows "snd (addBlock H db b) = db \<and>
         e \<in> {InvalidHeight, InvalidBlockId, UnspentOutputNotFound, UnbalancedTransaction}"
proof
  from assms have "fst (addBlock H db b) \<noteq> Success" by simp
  then show "snd (addBlock H db b) = db" by (rule addBlock_not_Success)
next
  show "e \<in> {InvalidHeight, InvalidBlockId, UnspentOutputNotFound, UnbalancedTransaction}"
  proof (cases "blk_height b = getCurrentHeight db + 1")
    case False
    with assms show ?thesis by (simp add: addBlock_def)
  next
    case height: True
    show ?thesis
    proof (cases "blk_id b = calculateBlockId H (blk_height b) (transactions b)")
      case False
      with height assms show ?thesis by (simp add: addBlock_def)
    next
      case True
      with height assms obtain w where
        "processTransactions db w (transactions b) (blk_height b) = Fail e"
        by (auto simp: addBlock_def split: sum.splits step.splits)
      then show ?thesis by (auto dest: processTransactions_Fail)
    qed
  qed
qed

text \<open>
  An instance where the error comes late: the first transaction of the block has
  already inserted its output and credited \<^verbatim>\<open>addr2\<close> in the working copy when the second
  one turns out unbalanced.
\<close>

theorem addBlock_validation_error_leaves_state_witness:
  "fst (addBlock testHash afterGenesis (mkBlock testHash 2 [mintTx, unbalancedTx])) =
      Failure UnbalancedTransaction \<and>
   workingCopyAt afterGenesis (mkBlock testHash 2 [mintTx, unbalancedTx]) 1 =
      Ok (afterGenesis\<lparr>tbl_blocks := tbl_blocks afterGenesis @ [\<lparr>rec_id = ''2tx2tx3'', height = 2\<rparr>],
                       tbl_outputs := tbl_outputs afterGenesis @
                         [\<lparr>tx_id = ''tx2'', output_index = 0, address = ''addr2'', val = 5,
                           block_height = 2, spent = False, spent_by_tx = None,
                           spent_at_height = None\<rparr>],
                       tbl_balances := tbl_balances afterGenesis @ [(''addr2'', 5)]\<rparr>) \<and>
   snd (addBlock testHash afterGenesis (mkBlock testHash 2 [mintTx, unbalancedTx])) = afterGenesis"
proof -
  have f: "fst (addBlock testHash afterGenesis (mkBlock testHash 2 [mintTx, unbalancedTx])) =
      Failure UnbalancedTransaction"
    unfolding afterGenesis_eq
    by (simp add: testHash_def mkBlock_def mintTx_def unbalancedTx_def eval_defs)
  have w: "workingCopyAt afterGenesis (mkBlock testHash 2 [mintTx, unbalancedTx]) 1 =
      Ok (afterGenesis\<lparr>tbl_blocks := tbl_blocks afterGenesis @ [\<lparr>rec_id = ''2tx2tx3'', height = 2\<rparr>],
                       tbl_outputs := tbl_outputs afterGenesis @
                         [\<lparr>tx_id = ''tx2'', output_index = 0, address = ''addr2'', val = 5,
                           block_height = 2, spent = False, spent_by_tx = None,
                           spent_at_height = None\<rparr>],
                       tbl_balances := tbl_balances afterGenesis @ [(''addr2'', 5)]\<rparr>)"
    unfolding afterGenesis_eq
    by (simp add: testHash_def mkBlock_def mintTx_def unbalancedTx_def eval_defs)
  from f w addBlock_validation_error_leaves_state [OF f] show ?thesis by simp
qed

subsection \<open>C5: spending an output of the same block\<close>

text \<open>
  C5 says that an input may reference an output created by an earlier transaction of
  the same block. The lookup reads the committed tables, where the outputs inserted by
  the open transaction are not visible: the block of height 1 that creates \<^verbatim>\<open>tx1:0\<close> in
  its first transaction and spends it in its second is rejected with
  \<^verbatim>\<open>UnspentOutputNotFound\<close>.
\<close>

theorem chained_spend_in_one_block_rejected:
  "inputs chainedTx = [\<lparr>txId = txn_id coinbaseTx, index = 0\<rparr>] \<and>
   addBlock testHash emptyDB (mkBlock testHash 1 [coinbaseTx, chainedTx]) =
     (Failure UnspentOutputNotFound, emptyDB)"
  by (simp add: testHash_def mkBlock_def chainedTx_def coinbaseTx_def eval_defs)

subsection \<open>C6: conservation\<close>




subsection \<open>C7: heights\<close>

text \<open>
  C7: \<^verbatim>\<open>addBlock\<close> fails with \<^verbatim>\<open>InvalidHeight\<close> exactly when the height of the candidate is
  not the current height plus one; the current height of the empty chain is 0; and in
  every reachable state the heights of the stored blocks are \<open>1, 2, ..., n\<close> with \<open>n\<close>
  the current height, so there is no gap, no repeat, and one block per height.
\<close>

theorem height_check_and_gapless_heights:
  "(fst (addBlock H db b) = Failure InvalidHeight \<longleftrightarrow>
      blk_height b \<noteq> getCurrentHeight db + 1) \<and>
   getCurrentHeight emptyDB = 0 \<and>
   (reachable H s \<longrightarrow>
      map height (tbl_blocks s) = [1..getCurrentHeight s] \<and>
      distinct (map height (tbl_blocks s)))"
proof (intro conjI impI)
  show "fst (addBlock H db b) = Failure InvalidHeight \<longleftrightarrow>
      blk_height b \<noteq> getCurrentHeight db + 1"
    by (rule addBlock_InvalidHeight_iff)
  show "getCurrentHeight emptyDB = 0"
    by (simp add: getCurrentHeight_def emptyDB_def)
next
  assume "reachable H s"
  then have "chainInv s" by (rule reachable_chainInv)
  then show hs: "map height (tbl_blocks s) = [1..getCurrentHeight s]"
    by (simp add: chainInv_def)
  show "distinct (map height (tbl_blocks s))"
    unfolding hs by simp
qed

theorem height_check_and_gapless_heights_witness:
  "fst (addBlock testHash afterGenesis (mkBlock testHash 3 [])) = Failure InvalidHeight \<and>
   fst (addBlock testHash afterGenesis (mkBlock testHash 1 [])) = Failure InvalidHeight \<and>
   fst (addBlock testHash afterGenesis (mkBlock testHash 2 [spendTx])) \<noteq> Failure InvalidHeight \<and>
   reachable testHash afterSpend \<and>
   getCurrentHeight afterSpend = 2 \<and>
   map height (tbl_blocks afterSpend) = [1, 2]"
proof -
  have g: "getCurrentHeight afterGenesis = 1"
    unfolding afterGenesis_eq by (simp add: getCurrentHeight_def)
  have g2: "getCurrentHeight afterSpend = 2"
    unfolding afterSpend_eq by (simp add: getCurrentHeight_def)
  have u: "[1..2] = [1, 2::int]" by (simp add: upto.simps)
  note inst = height_check_and_gapless_heights [where H = testHash and db = afterGenesis]
  from inst [where b = "mkBlock testHash 3 []"] g
  have 1: "fst (addBlock testHash afterGenesis (mkBlock testHash 3 [])) = Failure InvalidHeight"
    by (simp add: mkBlock_def)
  from inst [where b = "mkBlock testHash 1 []"] g
  have 2: "fst (addBlock testHash afterGenesis (mkBlock testHash 1 [])) = Failure InvalidHeight"
    by (simp add: mkBlock_def)
  from inst [where b = "mkBlock testHash 2 [spendTx]"] g
  have 3: "fst (addBlock testHash afterGenesis (mkBlock testHash 2 [spendTx])) \<noteq> Failure InvalidHeight"
    by (simp add: mkBlock_def)
  from inst [where s = afterSpend] reachable_afterSpend g2 u
  have 4: "map height (tbl_blocks afterSpend) = [1, 2]"
    by simp
  from 1 2 3 4 g2 reachable_afterSpend show ?thesis by simp
qed

subsection \<open>C8: block id\<close>

text \<open>
  C8: the expected id is the hash of the decimal string of the height followed by the
  transaction ids in the order supplied; once the height check has passed, \<^verbatim>\<open>addBlock\<close>
  fails with \<^verbatim>\<open>InvalidBlockId\<close> exactly when the submitted id differs from the expected
  one, and it gives that error in no other case. The id is a function of the hash, the
  height and the list of transaction ids only.
\<close>

theorem block_id_check:
  "calculateBlockId H h txs = H (decimal h @ concat (map txn_id txs)) \<and>
   (map txn_id txs = map txn_id txs' \<longrightarrow> calculateBlockId H h txs = calculateBlockId H h txs') \<and>
   (blk_height b = getCurrentHeight db + 1 \<longrightarrow>
      (fst (addBlock H db b) = Failure InvalidBlockId \<longleftrightarrow>
         blk_id b \<noteq> calculateBlockId H (blk_height b) (transactions b))) \<and>
   (fst (addBlock H db b) = Failure InvalidBlockId \<longrightarrow>
      blk_height b = getCurrentHeight db + 1)"
proof (intro conjI impI)
  show eq: "calculateBlockId H h txs = H (decimal h @ concat (map txn_id txs))" for h txs
    by (simp add: calculateBlockId_def)
  assume "map txn_id txs = map txn_id txs'"
  then show "calculateBlockId H h txs = calculateBlockId H h txs'"
    by (simp add: eq)
next
  assume "blk_height b = getCurrentHeight db + 1"
  then show "fst (addBlock H db b) = Failure InvalidBlockId \<longleftrightarrow>
         blk_id b \<noteq> calculateBlockId H (blk_height b) (transactions b)"
    by (simp add: addBlock_InvalidBlockId_iff)
next
  assume "fst (addBlock H db b) = Failure InvalidBlockId"
  then show "blk_height b = getCurrentHeight db + 1"
    by (simp add: addBlock_InvalidBlockId_iff)
qed

theorem block_id_check_witness:
  "calculateBlockId testHash 12 [coinbaseTx, spendTx] = ''12tx1tx2'' \<and>
   blk_height \<lparr>blk_id = ''2tx1'', blk_height = 2, transactions = [spendTx]\<rparr> =
     getCurrentHeight afterGenesis + 1 \<and>
   calculateBlockId testHash 2 [spendTx] = ''2tx2'' \<and>
   fst (addBlock testHash afterGenesis
          \<lparr>blk_id = ''2tx1'', blk_height = 2, transactions = [spendTx]\<rparr>) = Failure InvalidBlockId \<and>
   fst (addBlock testHash afterGenesis (mkBlock testHash 2 [spendTx])) \<noteq> Failure InvalidBlockId"
proof -
  have g: "getCurrentHeight afterGenesis = 1"
    unfolding afterGenesis_eq by (simp add: getCurrentHeight_def)
  have d: "decimal 12 = ''12''" "decimal 2 = ''2''"
    by (simp_all add: decimal_def decimalNat.simps)
  note inst = block_id_check [where H = testHash and db = afterGenesis]
  from inst [where h = 12 and txs = "[coinbaseTx, spendTx]"] d
  have 1: "calculateBlockId testHash 12 [coinbaseTx, spendTx] = ''12tx1tx2''"
    by (simp add: testHash_def coinbaseTx_def spendTx_def)
  from inst [where h = 2 and txs = "[spendTx]"] d
  have 2: "calculateBlockId testHash 2 [spendTx] = ''2tx2''"
    by (simp add: testHash_def spendTx_def)
  from inst [where b = "\<lparr>blk_id = ''2tx1'', blk_height = 2, transactions = [spendTx]\<rparr>"
               and h = 2 and txs = "[spendTx]" and txs' = "[spendTx]"] g 2
  have 3: "fst (addBlock testHash afterGenesis
          \<lparr>blk_id = ''2tx1'', blk_height = 2, transactions = [spendTx]\<rparr>) = Failure InvalidBlockId"
    by simp
  from inst [where b = "mkBlock testHash 2 [spendTx]" and h = 2 and txs = "[spendTx]"
               and txs' = "[spendTx]"] g
  have 4: "fst (addBlock testHash afterGenesis (mkBlock testHash 2 [spendTx])) \<noteq> Failure InvalidBlockId"
    by (auto simp: mkBlock_def)
  from 1 2 3 4 g show ?thesis by simp
qed

subsection \<open>C9: rollback\<close>




subsection \<open>C10: an output that already exists\<close>

text \<open>
  C10. When the loop of \<^verbatim>\<open>addBlock\<close> reaches a transaction whose inputs are all found and
  one of whose outputs has a \<^verbatim>\<open>(tx_id, output_index)\<close> already present in the committed
  ledger, the insert violates the primary key: the call throws instead of returning a
  validation error, and the committed state is unchanged. Whatever happens earlier in
  the call, a block with such a transaction is never accepted and never changes the
  committed state.
\<close>

theorem duplicate_output_throws:
  "(blk_height b = getCurrentHeight db + 1 \<longrightarrow>
    blk_id b = calculateBlockId H (blk_height b) (transactions b) \<longrightarrow>
    k < length (transactions b) \<longrightarrow>
    workingCopyAt db b k = Ok w \<longrightarrow>
    inputsFound db (transactions b ! k) \<longrightarrow>
    j < length (outputs (transactions b ! k)) \<longrightarrow>
    (txn_id (transactions b ! k), int j) \<in> outKeys db \<longrightarrow>
    addBlock H db b = (Exception UniqueViolation, db)) \<and>
   (tx \<in> set (transactions b) \<longrightarrow>
    i < length (outputs tx) \<longrightarrow>
    (txn_id tx, int i) \<in> outKeys db \<longrightarrow>
    fst (addBlock H db b) \<noteq> Success \<and> snd (addBlock H db b) = db)"
proof (intro conjI impI)
  assume h: "blk_height b = getCurrentHeight db + 1"
    and i: "blk_id b = calculateBlockId H (blk_height b) (transactions b)"
    and k: "k < length (transactions b)"
    and w: "workingCopyAt db b k = Ok w"
    and found: "inputsFound db (transactions b ! k)"
    and j: "j < length (outputs (transactions b ! k))"
    and key: "(txn_id (transactions b ! k), int j) \<in> outKeys db"
  from workingCopyAt_Ok [OF w] key
  have fk: "\<exists>r \<in> set (tbl_blocks w). height r = blk_height b"
    and key': "(txn_id (transactions b ! k), int j) \<in> outKeys w"
    by auto
  have "processTransaction db w (transactions b ! k) (blk_height b) = Throw UniqueViolation"
    by (rule processTransaction_duplicate [OF fk found j key'])
  then show "addBlock H db b = (Exception UniqueViolation, db)"
    by (rule addBlock_at(2) [OF h i k w])
next
  assume a: "tx \<in> set (transactions b)" "i < length (outputs tx)" "(txn_id tx, int i) \<in> outKeys db"
  then show n: "fst (addBlock H db b) \<noteq> Success"
    by (rule addBlock_duplicate_not_accepted)
  then show "snd (addBlock H db b) = db"
    by (rule addBlock_not_Success)
qed

text \<open>
  Instance: on the chain that holds \<^verbatim>\<open>tx1:0\<close>, a block of height 2 with a coinbase
  transaction whose id is again \<^verbatim>\<open>tx1\<close>.
\<close>

theorem duplicate_output_throws_witness:
  "(txn_id duplicateTx, 0) \<in> outKeys afterGenesis \<and>
   addBlock testHash afterGenesis (mkBlock testHash 2 [duplicateTx]) =
     (Exception UniqueViolation, afterGenesis)"
proof -
  let ?b = "mkBlock testHash 2 [duplicateTx]"
  let ?w = "afterGenesis\<lparr>tbl_blocks := tbl_blocks afterGenesis @ [\<lparr>rec_id = ''2tx1'', height = 2\<rparr>]\<rparr>"
  have tx: "transactions ?b ! 0 = duplicateTx" by (simp add: mkBlock_def)
  have h: "blk_height ?b = getCurrentHeight afterGenesis + 1"
    unfolding afterGenesis_eq by (simp add: mkBlock_def getCurrentHeight_def)
  have i: "blk_id ?b = calculateBlockId testHash (blk_height ?b) (transactions ?b)"
    by (simp add: mkBlock_def)
  have k: "0 < length (transactions ?b)" by (simp add: mkBlock_def)
  have w: "workingCopyAt afterGenesis ?b 0 = Ok ?w"
    unfolding afterGenesis_eq
    by (simp add: testHash_def mkBlock_def duplicateTx_def eval_defs)
  have f: "inputsFound afterGenesis (transactions ?b ! 0)"
    unfolding tx by (simp add: duplicateTx_def inputsFound_def)
  have j: "0 < length (outputs (transactions ?b ! 0))"
    unfolding tx by (simp add: duplicateTx_def)
  have key: "(txn_id (transactions ?b ! 0), int 0) \<in> outKeys afterGenesis"
    unfolding tx afterGenesis_eq by (simp add: duplicateTx_def outKeys_def)
  have key0: "(txn_id duplicateTx, 0) \<in> outKeys afterGenesis"
    unfolding afterGenesis_eq by (simp add: duplicateTx_def outKeys_def)
  note inst = duplicate_output_throws
    [where b = ?b and db = afterGenesis and H = testHash and k = 0 and w = ?w and j = 0
       and tx = duplicateTx and i = 0]
  from inst h i k w f j key
  have "addBlock testHash afterGenesis ?b = (Exception UniqueViolation, afterGenesis)"
    by blast
  with key0 show ?thesis by simp
qed

end
